theory Spec2Isabelle
  imports Main "HOL-Library.Sublist"
begin

section \<open>JavaScript strings and arrays\<close>

text \<open>
  A JavaScript string is modelled as a \<^typ>\<open>string\<close>, one \<^typ>\<open>char\<close> per code
  unit; the model covers the strings whose code units are below 256. The white space of
  \<open>String.prototype.trim\<close> and of the regular expression class \<open>\s\<close> is the
  ECMAScript WhiteSpace and LineTerminator set, which in that range is TAB, LF, VT, FF,
  CR, SPACE and NBSP.
\<close>

definition is_ws :: "char \<Rightarrow> bool" where
  "is_ws c \<longleftrightarrow>
     c = CHR 0x09 \<or> c = CHR 0x0A \<or> c = CHR 0x0B \<or> c = CHR 0x0C \<or> c = CHR 0x0D \<or>
     c = CHR 0x20 \<or> c = CHR 0xA0"

text \<open>\<open>s.trim()\<close>\<close>

definition trim :: "string \<Rightarrow> string" where
  "trim s = rev (dropWhile is_ws (rev (dropWhile is_ws s)))"

text \<open>\<open>s.match(/^(\s*)/)[1]\<close>: the leading white space of \<open>s\<close>; the pattern matches
  every string.\<close>

definition leading_ws :: "string \<Rightarrow> string" where
  "leading_ws s = takeWhile is_ws s"

text \<open>A string in a condition is true when it is not empty; a missing (undefined)
  property is false.\<close>

definition truthy :: "string \<Rightarrow> bool" where
  "truthy s \<longleftrightarrow> s \<noteq> []"

fun truthy_opt :: "string option \<Rightarrow> bool" where
  "truthy_opt None = False"
| "truthy_opt (Some s) = truthy s"

text \<open>\<open>a || b\<close> on two optional strings.\<close>

definition js_or :: "string option \<Rightarrow> string option \<Rightarrow> string option" where
  "js_or a b = (if truthy_opt a then a else b)"

text \<open>\<open>s.startsWith(p)\<close>\<close>

definition startsWith :: "string \<Rightarrow> string \<Rightarrow> bool" where
  "startsWith s p \<longleftrightarrow> take (length p) s = p"

text \<open>\<open>s.indexOf(t)\<close>, with \<open>None\<close> for -1, and \<open>s.includes(t)\<close>.\<close>

fun indexOf :: "string \<Rightarrow> string \<Rightarrow> nat option" where
  "indexOf [] t = (if t = [] then Some 0 else None)"
| "indexOf (c # cs) t =
     (if startsWith (c # cs) t then Some 0 else map_option Suc (indexOf cs t))"

definition str_includes :: "string \<Rightarrow> string \<Rightarrow> bool" where
  "str_includes s t \<longleftrightarrow> indexOf s t \<noteq> None"

text \<open>
  The replacement text of \<open>String.prototype.replace\<close> with a string pattern
  (ECMAScript GetSubstitution with no captures): \<open>$$\<close> is a dollar sign, \<open>$&\<close> the
  matched text, \<open>$`\<close> the text before the match, \<open>$'\<close> the text after it; every other
  character, a dollar sign before anything else included, stands for itself.
\<close>

fun getSubstitution :: "string \<Rightarrow> string \<Rightarrow> string \<Rightarrow> string \<Rightarrow> string" where
  "getSubstitution matched preceding following (c # d # rest) =
     (if c = CHR ''$'' then
        (if d = CHR ''$'' then CHR ''$'' # getSubstitution matched preceding following rest
         else if d = CHR ''&'' then matched @ getSubstitution matched preceding following rest
         else if d = CHR 0x60 then preceding @ getSubstitution matched preceding following rest
         else if d = CHR 0x27 then following @ getSubstitution matched preceding following rest
         else c # getSubstitution matched preceding following (d # rest))
      else c # getSubstitution matched preceding following (d # rest))"
| "getSubstitution matched preceding following template = template"

text \<open>\<open>s.replace(pat, rep)\<close> with a string pattern: only the first occurrence is
  replaced, and a string without the pattern is returned as it is.\<close>

definition replace :: "string \<Rightarrow> string \<Rightarrow> string \<Rightarrow> string" where
  "replace s pat rep =
     (case indexOf s pat of
        None \<Rightarrow> s
      | Some p \<Rightarrow>
          take p s @
          getSubstitution pat (take p s) (drop (p + length pat) s) rep @
          drop (p + length pat) s)"

text \<open>\<open>s.split(sep)\<close> with a one-character separator: never an empty array.\<close>

fun split_on :: "char \<Rightarrow> string \<Rightarrow> string list" where
  "split_on sep [] = [[]]"
| "split_on sep (c # cs) =
     (if c = sep then [] # split_on sep cs
      else (case split_on sep cs of
              [] \<Rightarrow> [[c]]
            | l # ls \<Rightarrow> (c # l) # ls))"

text \<open>\<open>xs.join(sep)\<close>\<close>

fun join_on :: "string \<Rightarrow> string list \<Rightarrow> string" where
  "join_on sep [] = []"
| "join_on sep [l] = l"
| "join_on sep (l # ls) = l @ sep @ join_on sep ls"

abbreviation split_nl :: "string \<Rightarrow> string list" where
  "split_nl \<equiv> split_on (CHR 0x0A)"

abbreviation join_nl :: "string list \<Rightarrow> string" where
  "join_nl \<equiv> join_on [CHR 0x0A]"

text \<open>\<open>xs[i]\<close>, with \<open>None\<close> for undefined.\<close>

definition nth_opt :: "'a list \<Rightarrow> nat \<Rightarrow> 'a option" where
  "nth_opt xs i = (if i < length xs then Some (xs ! i) else None)"

text \<open>
  \<open>xs.splice(start, deleteCount, ...items)\<close>, the array afterwards: a negative start
  counts from the end, and the start is clamped to the array on both sides.
\<close>

definition splice :: "'a list \<Rightarrow> int \<Rightarrow> nat \<Rightarrow> 'a list \<Rightarrow> 'a list" where
  "splice xs start deleteCount items =
     (let len = int (length xs);
          actualStart = nat (if start < 0 then max (len + start) 0 else min start len);
          actualDeleteCount = min deleteCount (length xs - actualStart)
      in take actualStart xs @ items @ drop (actualStart + actualDeleteCount) xs)"

text \<open>\<open>xs.map((x, i) => f(x, i))\<close>\<close>

definition map_idx :: "('a \<Rightarrow> nat \<Rightarrow> 'b) \<Rightarrow> 'a list \<Rightarrow> 'b list" where
  "map_idx f xs = map (\<lambda>(x, i). f x i) (zip xs [0..<length xs])"

section \<open>Numbers\<close>

text \<open>
  The numbers of the source are IEEE doubles; line numbers, offsets and indices are
  modelled as integers. A sum or difference of doubles that hold integers is exact as
  long as the operands and the result have a magnitude of at most 2 to the power 53, one
  more than \<open>Number.MAX_SAFE_INTEGER\<close>; beyond that the source rounds, and the integer
  arithmetic of the model is not what it computes. The results below that state a value
  computed from a line number or an offset of any size bound it to the safe integers.
\<close>

definition MAX_SAFE_INTEGER :: int where
  "MAX_SAFE_INTEGER = 2 ^ 53 - 1"

definition isSafeInteger :: "int \<Rightarrow> bool" where
  "isSafeInteger n \<longleftrightarrow> \<bar>n\<bar> \<le> MAX_SAFE_INTEGER"

section \<open>Errors\<close>

text \<open>A thrown \<open>Error\<close> carries its message; an error of the file system carries its
  code too.\<close>

datatype js_error = Error string | SystemError string string

fun message :: "js_error \<Rightarrow> string" where
  "message (Error m) = m"
| "message (SystemError c m) = m"

section \<open>Path resolution\<close>

text \<open>
  \<open>path.resolve\<close> of Node.js on POSIX. The arguments are taken from the right until
  an absolute one is found, the working directory last; \<open>normalizeString\<close> then drops
  empty and \<open>.\<close> segments and lets \<open>..\<close> remove the segment before it.
\<close>

definition isAbsolute :: "string \<Rightarrow> bool" where
  "isAbsolute p \<longleftrightarrow> (case p of [] \<Rightarrow> False | c # _ \<Rightarrow> c = CHR ''/'')"

fun normalizeSegments :: "bool \<Rightarrow> string list \<Rightarrow> string list \<Rightarrow> string list" where
  "normalizeSegments allowAboveRoot res [] = res"
| "normalizeSegments allowAboveRoot res (s # ss) =
     (if s = [] \<or> s = ''.'' then normalizeSegments allowAboveRoot res ss
      else if s = ''..'' then
        (if res \<noteq> [] \<and> last res \<noteq> ''..''
           then normalizeSegments allowAboveRoot (butlast res) ss
         else if allowAboveRoot
           then normalizeSegments allowAboveRoot (res @ [''..'']) ss
         else normalizeSegments allowAboveRoot res ss)
      else normalizeSegments allowAboveRoot (res @ [s]) ss)"

definition normalizeString :: "string \<Rightarrow> bool \<Rightarrow> string" where
  "normalizeString p allowAboveRoot =
     join_on ''/'' (normalizeSegments allowAboveRoot [] (split_on (CHR ''/'') p))"

text \<open>The loop of \<open>path.resolve\<close>, over the arguments from the right.\<close>

fun resolve_loop :: "string list \<Rightarrow> string \<Rightarrow> string \<times> bool" where
  "resolve_loop [] resolvedPath = (resolvedPath, False)"
| "resolve_loop (p # ps) resolvedPath =
     (if p = [] then resolve_loop ps resolvedPath
      else if isAbsolute p then (p @ ''/'' @ resolvedPath, True)
      else resolve_loop ps (p @ ''/'' @ resolvedPath))"

definition path_resolve :: "string \<Rightarrow> string list \<Rightarrow> string" where
  "path_resolve cwd args =
     (case resolve_loop (rev args @ [cwd]) [] of
        (resolvedPath, resolvedAbsolute) \<Rightarrow>
          (let n = normalizeString resolvedPath (\<not> resolvedAbsolute)
           in if resolvedAbsolute then CHR ''/'' # n
              else if n \<noteq> [] then n else ''.''))"

text \<open>The process: its working directory and the variable \<open>PROJECT_DIR\<close>.\<close>

record process =
  cwd :: string
  PROJECT_DIR :: "string option"

definition SANDBOX_DIR :: "process \<Rightarrow> string" where
  "SANDBOX_DIR env =
     path_resolve (cwd env)
       [case js_or (PROJECT_DIR env) (Some (cwd env)) of None \<Rightarrow> [] | Some d \<Rightarrow> d]"

definition resolveSandboxPath :: "process \<Rightarrow> string \<Rightarrow> js_error + string" where
  "resolveSandboxPath env userPath =
     (let resolvedPath = path_resolve (cwd env) [SANDBOX_DIR env, userPath]
      in if \<not> startsWith resolvedPath (SANDBOX_DIR env)
         then Inl (Error (''Security: Path traversal blocked - '' @ userPath))
         else Inr resolvedPath)"

text \<open>The directories from the root down to a path, and whether a path is a directory
  or inside it.\<close>

definition path_segments :: "string \<Rightarrow> string list" where
  "path_segments p = filter (\<lambda>s. s \<noteq> []) (split_on (CHR ''/'') p)"

definition inside :: "string \<Rightarrow> string \<Rightarrow> bool" where
  "inside root p \<longleftrightarrow> prefix (path_segments root) (path_segments p)"

section \<open>The file system\<close>

text \<open>
  The files of the machine by absolute path, and the directories that exist. Reading a
  path with no file fails with \<open>ENOENT\<close>; writing always succeeds (the other failures of
  the operating system are outside the model).
\<close>

record filesystem =
  files :: "string \<rightharpoonup> string"
  dirs :: "string set"

fun code :: "js_error \<Rightarrow> string option" where
  "code (Error m) = None"
| "code (SystemError c m) = Some c"

definition readFile :: "filesystem \<Rightarrow> string \<Rightarrow> js_error + string" where
  "readFile fs p =
     (case files fs p of
        None \<Rightarrow>
          Inl (SystemError ''ENOENT''
                 (''ENOENT: no such file or directory, open '' @ [CHR 0x27] @ p @ [CHR 0x27]))
      | Some c \<Rightarrow> Inr c)"

definition writeFile :: "filesystem \<Rightarrow> string \<Rightarrow> string \<Rightarrow> filesystem" where
  "writeFile fs p c = fs\<lparr>files := (files fs)(p \<mapsto> c)\<rparr>"

text \<open>\<open>path.dirname\<close> of a resolved absolute path, and \<open>fs.mkdir\<close> with
  \<open>recursive: true\<close>, which creates the directory and those above it.\<close>

definition dirname :: "string \<Rightarrow> string" where
  "dirname p = CHR ''/'' # join_on ''/'' (butlast (path_segments p))"

definition mkdir_recursive :: "filesystem \<Rightarrow> string \<Rightarrow> filesystem" where
  "mkdir_recursive fs d =
     fs\<lparr>dirs := dirs fs \<union>
       set (map (\<lambda>k. CHR ''/'' # join_on ''/'' (take k (path_segments d)))
              [0..<Suc (length (path_segments d))])\<rparr>"

text \<open>A parameter with a default value.\<close>

fun dflt :: "'a \<Rightarrow> 'a option \<Rightarrow> 'a" where
  "dflt d None = d"
| "dflt d (Some v) = v"

section \<open>smart\_replace\<close>

text \<open>
  The inner loop of \<open>_performSmartMatch\<close>: the old lines from \<open>j\<close> on equal the trimmed
  lines of the content from \<open>i + j\<close> on.
\<close>

function match_at :: "string list \<Rightarrow> string list \<Rightarrow> nat \<Rightarrow> nat \<Rightarrow> bool" where
  "match_at lines oldLines i j =
     (if j < length oldLines then
        (if map_option trim (nth_opt lines (i + j)) \<noteq> Some (oldLines ! j) then False
         else match_at lines oldLines i (Suc j))
      else True)"
  by pat_completeness auto
termination
  by (relation "measure (\<lambda>(lines, oldLines, i, j). length oldLines - j)") auto

declare match_at.simps [simp del]

text \<open>The lines that replace a matched window: the first line of the new code as it
  is, every later line that is not blank trimmed and indented as the first matched line,
  a blank line as it is.\<close>

definition smart_newLines :: "string \<Rightarrow> string \<Rightarrow> string list" where
  "smart_newLines indent newCode =
     map_idx (\<lambda>line idx.
                if idx = 0 then line
                else if truthy (trim line) then indent @ trim line else line)
       (split_nl newCode)"

text \<open>The outer loop, from window \<open>i\<close> on. \<open>lines[i]\<close> is read without a guard, which
  throws a TypeError when it is undefined.\<close>

function smart_loop ::
  "string list \<Rightarrow> string list \<Rightarrow> string \<Rightarrow> nat \<Rightarrow> js_error + string option" where
  "smart_loop lines oldLines newCode i =
     (if int i \<le> int (length lines) - int (length oldLines) then
        (if match_at lines oldLines i 0 then
           (case nth_opt lines i of
              None \<Rightarrow>
                Inl (Error (''Cannot read properties of undefined (reading ''
                            @ [CHR 0x27] @ ''match'' @ [CHR 0x27] @ '')''))
            | Some l \<Rightarrow>
                Inr (Some (join_nl
                  (splice lines (int i) (length oldLines)
                     (smart_newLines (leading_ws l) newCode)))))
         else smart_loop lines oldLines newCode (Suc i))
      else Inr None)"
  by pat_completeness auto
termination
  by (relation "measure (\<lambda>(lines, oldLines, newCode, i). Suc (length lines) - i)") auto

declare smart_loop.simps [simp del]

definition performSmartMatch :: "string \<Rightarrow> string \<Rightarrow> string \<Rightarrow> js_error + string option" where
  "performSmartMatch content oldCode newCode =
     (if str_includes content oldCode then Inr (Some (replace content oldCode newCode))
      else
        (let lines = split_nl content;
             oldLines = map trim (split_nl (trim oldCode))
         in smart_loop lines oldLines newCode 0))"

record replace_result =
  sr_success :: bool
  sr_file_path :: string
  sr_match_mode :: string

text \<open>The body of the \<open>try\<close> block of \<open>smartReplace\<close> up to the write: the path and
  the new content, or the error thrown.\<close>

definition smartReplace_newContent ::
  "process \<Rightarrow> string \<Rightarrow> string \<Rightarrow> string \<Rightarrow> string \<Rightarrow> filesystem
     \<Rightarrow> js_error + string \<times> string" where
  "smartReplace_newContent env file_path old_code new_code match_mode fs =
     (case resolveSandboxPath env file_path of
        Inl e \<Rightarrow> Inl e
      | Inr safePath \<Rightarrow>
          (case readFile fs safePath of
             Inl e \<Rightarrow> Inl e
           | Inr content \<Rightarrow>
               (if match_mode = ''exact'' then
                  (if \<not> str_includes content old_code
                     then Inl (Error ''Exact match not found'')
                   else Inr (safePath, replace content old_code new_code))
                else if match_mode = ''smart'' \<or> match_mode = ''fuzzy'' then
                  (case performSmartMatch content old_code new_code of
                     Inl e \<Rightarrow> Inl e
                   | Inr None \<Rightarrow> Inl (Error ''No match found with smart matching'')
                   | Inr (Some newContent) \<Rightarrow> Inr (safePath, newContent))
                else Inl (Error (''Invalid match_mode: '' @ match_mode)))))"

text \<open>\<open>smartReplace\<close>: the result or the error, and the file system afterwards. Every
  error is thrown again with the prefix of the operation. The new content is a string on
  every path that reaches the write, so the \<open>typeof\<close> check before it never throws.\<close>

definition smartReplace ::
  "process \<Rightarrow> string \<Rightarrow> string \<Rightarrow> string \<Rightarrow> string option \<Rightarrow> filesystem
     \<Rightarrow> (js_error + replace_result) \<times> filesystem" where
  "smartReplace env file_path old_code new_code match_mode_opt fs =
     (let match_mode = dflt ''smart'' match_mode_opt
      in case smartReplace_newContent env file_path old_code new_code match_mode fs of
           Inl error \<Rightarrow> (Inl (Error (''smart_replace failed: '' @ message error)), fs)
         | Inr (safePath, newContent) \<Rightarrow>
             (Inr \<lparr>sr_success = True, sr_file_path = file_path, sr_match_mode = match_mode\<rparr>,
              writeFile fs safePath newContent))"

text \<open>A window of the content at line \<open>i\<close>: as many lines as \<open>oldLines\<close> has, equal to
  them once trimmed. This is what the loops of \<open>_performSmartMatch\<close> look for.\<close>

definition window_at :: "string list \<Rightarrow> string list \<Rightarrow> nat \<Rightarrow> bool" where
  "window_at lines oldLines i \<longleftrightarrow>
     i + length oldLines \<le> length lines \<and>
     map trim (take (length oldLines) (drop i lines)) = oldLines"

section \<open>insert\_lines\<close>

record relative =
  pattern :: string
  offset :: int

record position =
  line_number :: "int option"
  insert_mode :: "string option"
  after_pattern :: "string option"
  before_pattern :: "string option"
  relative_to :: "relative option"

text \<open>The loop of the pattern strategies over the lines from index \<open>i\<close> on: the insertion
  index and the matched line, \<open>-1\<close> and the empty string when the loop ends without a
  match.\<close>

fun pattern_loop ::
  "string \<Rightarrow> bool \<Rightarrow> int \<Rightarrow> string list \<Rightarrow> nat \<Rightarrow> int \<Rightarrow> int \<times> string" where
  "pattern_loop pat isAfter match_occurrence [] i occurrenceCount = (- 1, [])"
| "pattern_loop pat isAfter match_occurrence (l # ls) i occurrenceCount =
     (if str_includes l pat then
        (if occurrenceCount + 1 = match_occurrence
           then (if isAfter then int i + 1 else int i, l)
         else pattern_loop pat isAfter match_occurrence ls (Suc i) (occurrenceCount + 1))
      else pattern_loop pat isAfter match_occurrence ls (Suc i) occurrenceCount)"

text \<open>The loop of the relative strategy: \<open>None\<close> when \<open>found\<close> stays false. The
  index is computed on integers, which is the sum of the source as long as the offset plus
  the line count is a safe integer.\<close>

fun relative_loop :: "string \<Rightarrow> int \<Rightarrow> string list \<Rightarrow> nat \<Rightarrow> (int \<times> string) option" where
  "relative_loop pat off [] i = None"
| "relative_loop pat off (l # ls) i =
     (if str_includes l pat
        then Some (int i + off + (if off \<ge> 0 then 1 else 0), l)
      else relative_loop pat off ls (Suc i))"

text \<open>The step that determines the insertion position in \<open>insertLines\<close>: \<open>insertIndex\<close> and
  \<open>matchedLine\<close>, or the error thrown.\<close>

definition insert_position ::
  "string list \<Rightarrow> position \<Rightarrow> int \<Rightarrow> js_error + int \<times> string" where
  "insert_position lines pos match_occurrence =
     (case line_number pos of
        Some n \<Rightarrow> Inr (if insert_mode pos = Some ''before'' then n - 1 else n, [])
      | None \<Rightarrow>
          (if truthy_opt (js_or (after_pattern pos) (before_pattern pos)) then
             (let pat = dflt [] (js_or (after_pattern pos) (before_pattern pos));
                  isAfter = truthy_opt (after_pattern pos);
                  r = pattern_loop pat isAfter match_occurrence lines 0 0
              in if fst r = - 1
                 then Inl (Error (''Pattern '' @ [CHR 0x22] @ pat @ [CHR 0x22] @ '' not found''))
                 else Inr r)
           else
             (case relative_to pos of
                Some rel \<Rightarrow>
                  (case relative_loop (pattern rel) (offset rel) lines 0 of
                     None \<Rightarrow> Inl (Error (''Pattern '' @ [CHR 0x22] @ pattern rel @ [CHR 0x22] @ '' not found''))
                   | Some r \<Rightarrow> Inr r)
              | None \<Rightarrow> Inr (- 1, []))))"

text \<open>The step that applies the indentation in \<open>insertLines\<close>.\<close>

definition processedContent :: "bool \<Rightarrow> string \<Rightarrow> string \<Rightarrow> string" where
  "processedContent preserve_indentation matchedLine content =
     (if preserve_indentation \<and> truthy matchedLine then
        join_nl (map_idx (\<lambda>line i.
                   if i = 0 \<or> \<not> truthy (trim line) then line
                   else leading_ws matchedLine @ line)
                 (split_nl content))
      else content)"

record insert_result =
  il_success :: bool
  il_file_path :: string
  inserted_at_line :: int
  lines_inserted :: nat

text \<open>The read at the start of \<open>insertLines\<close>: a missing file is the empty content when
  \<open>create_if_missing\<close> is set, after the directories above it have been created. In
  \<open>insertLines\<close> below, \<open>inserted_at_line\<close> is the index plus one on integers, which is
  the sum of the source as long as the index is a safe integer.\<close>

definition insertLines_read ::
  "bool \<Rightarrow> string \<Rightarrow> filesystem \<Rightarrow> js_error + string \<times> filesystem" where
  "insertLines_read create_if_missing safePath fs =
     (case readFile fs safePath of
        Inr fileContent \<Rightarrow> Inr (fileContent, fs)
      | Inl error \<Rightarrow>
          (if create_if_missing \<and> code error = Some ''ENOENT''
             then Inr ([], mkdir_recursive fs (dirname safePath))
           else Inl error))"

definition insertLines ::
  "process \<Rightarrow> string \<Rightarrow> string \<Rightarrow> position \<Rightarrow> int option \<Rightarrow> bool option \<Rightarrow> bool option
     \<Rightarrow> filesystem \<Rightarrow> (js_error + insert_result) \<times> filesystem" where
  "insertLines env file_path content pos match_occurrence_opt create_if_missing_opt
       preserve_indentation_opt fs =
     (let match_occurrence = dflt 1 match_occurrence_opt;
          create_if_missing = dflt False create_if_missing_opt;
          preserve_indentation = dflt True preserve_indentation_opt
      in case resolveSandboxPath env file_path of
           Inl e \<Rightarrow> (Inl e, fs)
         | Inr safePath \<Rightarrow>
             (case insertLines_read create_if_missing safePath fs of
                Inl e \<Rightarrow> (Inl e, fs)
              | Inr (fileContent, fs1) \<Rightarrow>
                  (let lines = split_nl fileContent
                   in case insert_position lines pos match_occurrence of
                        Inl e \<Rightarrow> (Inl e, fs1)
                      | Inr (insertIndex, matchedLine) \<Rightarrow>
                          (let processed =
                                 processedContent preserve_indentation matchedLine content;
                               lines' = splice lines insertIndex 0 (split_nl processed)
                           in (Inr \<lparr>il_success = True, il_file_path = file_path,
                                     inserted_at_line = insertIndex + 1,
                                     lines_inserted = length (split_nl processed)\<rparr>,
                               writeFile fs1 safePath (join_nl lines'))))))"

section \<open>A process and a file system to run the operations on\<close>

definition example_process :: process where
  "example_process = \<lparr>cwd = ''/root'', PROJECT_DIR = None\<rparr>"

definition example_fs :: "string \<Rightarrow> filesystem" where
  "example_fs c = \<lparr>files = [''/root/a.txt'' \<mapsto> c], dirs = {''/'', ''/root''}\<rparr>"

text \<open>Contents with repeated blocks.\<close>

definition two_blocks :: string where
  "two_blocks = ''  foo()'' @ [CHR 0x0A] @ ''  bar()'' @ [CHR 0x0A] @ ''  foo()'' @ [CHR 0x0A] @ ''  bar()''"

definition one_block :: string where
  "one_block = ''foo()'' @ [CHR 0x0A] @ ''bar()''"

definition three_lines :: string where
  "three_lines = ''xfoo'' @ [CHR 0x0A] @ ''foo'' @ [CHR 0x0A] @ ''foo''"

section \<open>Indentation of a payload\<close>

text \<open>
  What the lines \<open>out\<close> are for a payload and an indentation. Stripped: the first line
  and the blank lines of the payload as they are, every other line trimmed on both sides
  and put after the indentation. Kept: the same, but every other line put after the
  indentation with its own white space kept.
\<close>

definition reindented_stripped :: "string \<Rightarrow> string list \<Rightarrow> string list \<Rightarrow> bool" where
  "reindented_stripped indent payload out \<longleftrightarrow>
     length out = length payload \<and>
     (\<forall>k<length payload.
        out ! k = (if k = 0 \<or> trim (payload ! k) = [] then payload ! k
                   else indent @ trim (payload ! k)))"

definition reindented_kept :: "string \<Rightarrow> string list \<Rightarrow> string list \<Rightarrow> bool" where
  "reindented_kept indent payload out \<longleftrightarrow>
     length out = length payload \<and>
     (\<forall>k<length payload.
        out ! k = (if k = 0 \<or> trim (payload ! k) = [] then payload ! k
                   else indent @ payload ! k))"

text \<open>A position with no field set.\<close>

definition empty_position :: position where
  "empty_position =
     \<lparr>line_number = None, insert_mode = None, after_pattern = None,
      before_pattern = None, relative_to = None\<rparr>"

text \<open>Files of two and three lines.\<close>

definition two_lines :: string where
  "two_lines = ''a'' @ [CHR 0x0A] @ ''b''"

definition anchored_lines :: string where
  "anchored_lines = ''a'' @ [CHR 0x0A] @ ''  b'' @ [CHR 0x0A] @ ''b''"

text \<open>An indented anchor line, payloads of two lines, and positions.\<close>

definition indented_file :: string where
  "indented_file = ''a'' @ [CHR 0x0A] @ ''    b''"

definition indented_payload :: string where
  "indented_payload = ''X'' @ [CHR 0x0A] @ ''  Y''"

definition relative_b :: position where
  "relative_b = empty_position\<lparr>relative_to := Some \<lparr>pattern = ''b'', offset = 0\<rparr>\<rparr>"

definition relative_z :: position where
  "relative_z = empty_position\<lparr>relative_to := Some \<lparr>pattern = ''z'', offset = 0\<rparr>\<rparr>"

definition after_b :: position where
  "after_b = empty_position\<lparr>after_pattern := Some ''b''\<rparr>"

definition two_line_payload :: string where
  "two_line_payload = ''baz()'' @ [CHR 0x0A] @ ''    qux()  ''"

section \<open>Facts about the string and array primitives\<close>

lemma split_on_not_Nil: "split_on sep s \<noteq> []"
  by (induction s) (auto split: list.splits)

lemma join_split_on: "join_on [sep] (split_on sep s) = s"
proof (induction s)
  case Nil
  show ?case by simp
next
  case (Cons c cs)
  show ?case
  proof (cases "c = sep")
    case True
    obtain l ls where eq: "split_on sep cs = l # ls"
      using split_on_not_Nil [of sep cs] by (cases "split_on sep cs") auto
    with Cons True show ?thesis by simp
  next
    case False
    obtain l ls where eq: "split_on sep cs = l # ls"
      using split_on_not_Nil [of sep cs] by (cases "split_on sep cs") auto
    with Cons False show ?thesis by (cases ls) auto
  qed
qed

lemma split_on_no_sep: "l \<in> set (split_on sep s) \<Longrightarrow> sep \<notin> set l"
proof (induction s arbitrary: l)
  case Nil
  then show ?case by simp
next
  case (Cons c cs)
  obtain k ks where eq: "split_on sep cs = k # ks"
    using split_on_not_Nil [of sep cs] by (cases "split_on sep cs") auto
  have k: "sep \<notin> set k" and ks: "\<And>m. m \<in> set ks \<Longrightarrow> sep \<notin> set m"
    using Cons.IH eq by auto
  from Cons.prems eq k ks show ?case
    by (auto split: if_splits)
qed

lemma split_on_no_sep_id: "sep \<notin> set l \<Longrightarrow> split_on sep l = [l]"
  by (induction l) auto

lemma split_on_append_sep:
  "sep \<notin> set l \<Longrightarrow> split_on sep (l @ sep # rest) = l # split_on sep rest"
  by (induction l) auto

lemma split_join_on:
  "xs \<noteq> [] \<Longrightarrow> \<forall>l\<in>set xs. sep \<notin> set l \<Longrightarrow> split_on sep (join_on [sep] xs) = xs"
proof (induction xs)
  case Nil
  then show ?case by simp
next
  case (Cons l ls)
  show ?case
  proof (cases ls)
    case Nil
    with Cons.prems show ?thesis by (simp add: split_on_no_sep_id)
  next
    case (Cons m ms)
    with Cons.IH Cons.prems show ?thesis by (simp add: split_on_append_sep)
  qed
qed

lemma startsWith_iff: "startsWith s t \<longleftrightarrow> (\<exists>post. s = t @ post)"
  unfolding startsWith_def
  by (metis append_eq_conv_conj append_take_drop_id)

lemma indexOf_Some:
  "indexOf s t = Some p \<Longrightarrow>
     p \<le> length s \<and> startsWith (drop p s) t \<and> (\<forall>q<p. \<not> startsWith (drop q s) t)"
proof (induction s arbitrary: p)
  case Nil
  then show ?case by (auto simp: startsWith_def split: if_splits)
next
  case (Cons c cs)
  show ?case
  proof (cases "startsWith (c # cs) t")
    case True
    with Cons.prems show ?thesis by simp
  next
    case False
    with Cons.prems obtain p' where p': "indexOf cs t = Some p'" "p = Suc p'"
      by auto
    from Cons.IH [OF p'(1)] False p'(2) show ?thesis
      by (auto simp: less_Suc_eq_0_disj)
  qed
qed

lemma indexOf_None:
  "indexOf s t = None \<Longrightarrow> q \<le> length s \<Longrightarrow> \<not> startsWith (drop q s) t"
proof (induction s arbitrary: q)
  case Nil
  then show ?case by (auto simp: startsWith_def split: if_splits)
next
  case (Cons c cs)
  from Cons.prems(1) have a: "\<not> startsWith (c # cs) t" and b: "indexOf cs t = None"
    by (auto split: if_splits)
  show ?case
  proof (cases q)
    case 0
    with a show ?thesis by simp
  next
    case (Suc q')
    with Cons.IH [OF b, of q'] Cons.prems(2) show ?thesis by simp
  qed
qed

lemma str_includes_iff: "str_includes s t \<longleftrightarrow> (\<exists>pre post. s = pre @ t @ post)"
proof
  assume "str_includes s t"
  then obtain p where p: "indexOf s t = Some p"
    by (auto simp: str_includes_def)
  from indexOf_Some [OF p] obtain post where "drop p s = t @ post"
    by (auto simp: startsWith_iff)
  then have "s = take p s @ t @ post"
    by (metis append_take_drop_id)
  then show "\<exists>pre post. s = pre @ t @ post" by blast
next
  assume "\<exists>pre post. s = pre @ t @ post"
  then obtain pre post where s: "s = pre @ t @ post" by blast
  show "str_includes s t"
  proof (rule ccontr)
    assume "\<not> str_includes s t"
    then have "indexOf s t = None" by (simp add: str_includes_def)
    from indexOf_None [OF this, of "length pre"] s show False
      by (simp add: startsWith_iff)
  qed
qed

lemma replace_decomp:
  assumes "str_includes s t"
  shows "\<exists>pre post. s = pre @ t @ post \<and> (\<forall>q<length pre. \<not> startsWith (drop q s) t) \<and>
           replace s t rep = pre @ getSubstitution t pre post rep @ post"
proof -
  from assms obtain p where p: "indexOf s t = Some p"
    by (auto simp: str_includes_def)
  from indexOf_Some [OF p] obtain post where post: "drop p s = t @ post"
    and le: "p \<le> length s" and first: "\<forall>q<p. \<not> startsWith (drop q s) t"
    by (auto simp: startsWith_iff)
  have s: "s = take p s @ t @ post"
    using post by (metis append_take_drop_id)
  have d: "drop (p + length t) s = post"
    using post by (metis add.commute append_eq_conv_conj drop_drop)
  have "replace s t rep = take p s @ getSubstitution t (take p s) post rep @ post"
    by (simp add: replace_def p d)
  with s first le show ?thesis
    by (intro exI [of _ "take p s"] exI [of _ post]) simp
qed

lemma getSubstitution_no_dollar:
  "CHR ''$'' \<notin> set rep \<Longrightarrow> getSubstitution m b a rep = rep"
  by (induction m b a rep rule: getSubstitution.induct) auto

section \<open>Facts about smart\_replace\<close>

lemma readFile_Some: "files fs p = Some c \<Longrightarrow> readFile fs p = Inr c"
  by (simp add: readFile_def)

lemma example_path: "resolveSandboxPath example_process ''a.txt'' = Inr ''/root/a.txt''"
  by code_simp

lemma example_file: "files (example_fs c) ''/root/a.txt'' = Some c"
  by (simp add: example_fs_def)

lemma indexOf_empty: "indexOf s [] = Some 0"
  by (cases s) (simp_all add: startsWith_def)

lemma smartReplace_literal:
  assumes path: "resolveSandboxPath env file_path = Inr safePath"
    and fl: "files fs safePath = Some content"
    and sub: "str_includes content old_code"
    and mode: "mode_opt = Some ''exact'' \<or> mode_opt = None \<or> mode_opt = Some ''smart'' \<or> mode_opt = Some ''fuzzy''"
  shows "smartReplace env file_path old_code new_code mode_opt fs =
           (Inr \<lparr>sr_success = True, sr_file_path = file_path,
                  sr_match_mode = dflt ''smart'' mode_opt\<rparr>,
            writeFile fs safePath (replace content old_code new_code))"
  using mode
  by (auto simp: smartReplace_def smartReplace_newContent_def path readFile_Some [OF fl]
      sub performSmartMatch_def)

section \<open>Facts about the line loop of smart\_replace\<close>

lemma length_map_idx [simp]: "length (map_idx f xs) = length xs"
  by (simp add: map_idx_def)

lemma nth_map_idx [simp]: "k < length xs \<Longrightarrow> map_idx f xs ! k = f (xs ! k) k"
  by (simp add: map_idx_def)

lemma set_trim: "set (trim s) \<subseteq> set s"
proof -
  have "set (trim s) \<subseteq> set (rev (dropWhile is_ws s))"
    unfolding trim_def using set_dropWhileD by fastforce
  also have "\<dots> \<subseteq> set s"
    using set_dropWhileD by fastforce
  finally show ?thesis .
qed

lemma set_leading_ws: "set (leading_ws s) \<subseteq> set s"
  unfolding leading_ws_def using set_takeWhileD by fastforce

lemma match_at_iff:
  "match_at lines oldLines i j \<longleftrightarrow>
     (\<forall>k. j \<le> k \<and> k < length oldLines \<longrightarrow>
          i + k < length lines \<and> trim (lines ! (i + k)) = oldLines ! k)"
proof (induction lines oldLines i j rule: match_at.induct)
  case (1 lines oldLines i j)
  show ?case
  proof (cases "j < length oldLines")
    case False
    then have "match_at lines oldLines i j" by (subst match_at.simps) simp
    with False show ?thesis by auto
  next
    case True
    show ?thesis
    proof (cases "map_option trim (nth_opt lines (i + j)) = Some (oldLines ! j)")
      case False
      with True have "\<not> match_at lines oldLines i j"
        by (subst match_at.simps) simp
      moreover from False True
      have "\<not> (i + j < length lines \<and> trim (lines ! (i + j)) = oldLines ! j)"
        by (auto simp: nth_opt_def)
      ultimately show ?thesis using True by blast
    next
      case eq: True
      with True have "match_at lines oldLines i j = match_at lines oldLines i (Suc j)"
        by (subst match_at.simps) simp
      also have "\<dots> \<longleftrightarrow> (\<forall>k. Suc j \<le> k \<and> k < length oldLines \<longrightarrow>
          i + k < length lines \<and> trim (lines ! (i + k)) = oldLines ! k)"
        using "1.IH" True eq by simp
      also have "\<dots> \<longleftrightarrow> (\<forall>k. j \<le> k \<and> k < length oldLines \<longrightarrow>
          i + k < length lines \<and> trim (lines ! (i + k)) = oldLines ! k)"
      proof -
        from eq have here: "i + j < length lines \<and> trim (lines ! (i + j)) = oldLines ! j"
          by (auto simp: nth_opt_def split: if_splits)
        show ?thesis
          using here by (metis Suc_leI le_neq_implies_less Suc_le_lessD less_imp_le_nat)
      qed
      finally show ?thesis .
    qed
  qed
qed

lemma match_at_window:
  assumes "i + length oldLines \<le> length lines"
  shows "match_at lines oldLines i 0 = window_at lines oldLines i"
proof -
  have "map trim (take (length oldLines) (drop i lines)) = oldLines \<longleftrightarrow>
        (\<forall>k<length oldLines. trim (lines ! (i + k)) = oldLines ! k)"
    using assms by (auto simp: list_eq_iff_nth_eq)
  with assms show ?thesis
    by (auto simp: match_at_iff window_at_def)
qed

lemma splice_inside:
  "i + n \<le> length xs \<Longrightarrow> splice xs (int i) n items = take i xs @ items @ drop (i + n) xs"
  by (simp add: splice_def Let_def min_def)

lemma smart_loop_none:
  "(\<And>w. i \<le> w \<Longrightarrow> \<not> window_at lines oldLines w) \<Longrightarrow>
     smart_loop lines oldLines newCode i = Inr None"
proof (induction lines oldLines newCode i rule: smart_loop.induct)
  case (1 lines oldLines newCode i)
  show ?case
  proof (cases "int i \<le> int (length lines) - int (length oldLines)")
    case False
    then show ?thesis by (subst smart_loop.simps) simp
  next
    case True
    then have le: "i + length oldLines \<le> length lines" by linarith
    have nm: "\<not> match_at lines oldLines i 0"
      using match_at_window [OF le] "1.prems" [of i] by simp
    have "smart_loop lines oldLines newCode (Suc i) = Inr None"
      using "1.IH" [OF True nm] "1.prems" by simp
    with True nm show ?thesis by (subst smart_loop.simps) simp
  qed
qed

lemma smart_loop_first:
  assumes "window_at lines oldLines w" and "oldLines \<noteq> []"
    and "i \<le> w" and "\<And>k. i \<le> k \<Longrightarrow> k < w \<Longrightarrow> \<not> window_at lines oldLines k"
  shows "smart_loop lines oldLines newCode i =
           Inr (Some (join_nl (take w lines @ smart_newLines (leading_ws (lines ! w)) newCode
                                @ drop (w + length oldLines) lines)))"
  using assms(3,4)
proof (induction "w - i" arbitrary: i)
  case 0
  then have iw: "i = w" by simp
  from assms(1) have le: "w + length oldLines \<le> length lines"
    by (simp add: window_at_def)
  with assms(2) have lt: "w < length lines" by (cases oldLines) auto
  have m: "match_at lines oldLines w 0"
    using match_at_window [OF le] assms(1) by simp
  from le have c: "int w \<le> int (length lines) - int (length oldLines)" by linarith
  show ?case
    unfolding iw
    by (subst smart_loop.simps) (simp add: c m nth_opt_def lt splice_inside [OF le])
next
  case (Suc d)
  then have lt: "i < w" by simp
  from assms(1) have le: "w + length oldLines \<le> length lines"
    by (simp add: window_at_def)
  with lt have le': "i + length oldLines \<le> length lines" by simp
  then have c: "int i \<le> int (length lines) - int (length oldLines)" by linarith
  have nm: "\<not> match_at lines oldLines i 0"
    using match_at_window [OF le'] Suc.prems(2) [of i] lt by simp
  have "smart_loop lines oldLines newCode (Suc i) =
           Inr (Some (join_nl (take w lines @ smart_newLines (leading_ws (lines ! w)) newCode
                                @ drop (w + length oldLines) lines)))"
    using Suc.hyps(1) [of "Suc i"] Suc.hyps(2) Suc.prems lt by simp
  with c nm show ?case by (subst smart_loop.simps) simp
qed

lemma oldLines_not_Nil: "map trim (split_nl s) \<noteq> []"
  by (simp add: split_on_not_Nil)

lemma smart_newLines_no_newline:
  assumes "CHR 0x0A \<notin> set indent" and "l \<in> set (smart_newLines indent newCode)"
  shows "CHR 0x0A \<notin> set l"
proof -
  from assms(2) obtain k where k: "k < length (split_nl newCode)"
    and l: "l = smart_newLines indent newCode ! k"
    by (auto simp: in_set_conv_nth smart_newLines_def)
  have p: "CHR 0x0A \<notin> set (split_nl newCode ! k)"
    using k split_on_no_sep nth_mem by blast
  then have "CHR 0x0A \<notin> set (trim (split_nl newCode ! k))"
    using set_trim by blast
  with p assms(1) l k show ?thesis
    by (auto simp: smart_newLines_def)
qed

lemma performSmartMatch_fuzzy:
  assumes nolit: "\<not> str_includes content old_code"
    and win: "window_at (split_nl content) (map trim (split_nl (trim old_code))) w"
    and low: "\<forall>k<w. \<not> window_at (split_nl content) (map trim (split_nl (trim old_code))) k"
  shows "performSmartMatch content old_code new_code =
           Inr (Some (join_nl
             (take w (split_nl content) @
              smart_newLines (leading_ws (split_nl content ! w)) new_code @
              drop (w + length (split_nl (trim old_code))) (split_nl content))))"
  using smart_loop_first [OF win oldLines_not_Nil, of 0 new_code] low nolit
  by (simp add: performSmartMatch_def)

lemma window_at_less: "window_at lines oldLines w \<Longrightarrow> oldLines \<noteq> [] \<Longrightarrow> w < length lines"
  by (cases oldLines) (auto simp: window_at_def)

lemma fuzzy_lines:
  assumes win: "window_at (split_nl content) (map trim (split_nl (trim old_code))) w"
  shows "split_nl (join_nl
             (take w (split_nl content) @
              smart_newLines (leading_ws (split_nl content ! w)) new_code @
              drop (w + n) (split_nl content)))
         = take w (split_nl content) @
              smart_newLines (leading_ws (split_nl content ! w)) new_code @
              drop (w + n) (split_nl content)"
proof (rule split_join_on)
  have "smart_newLines (leading_ws (split_nl content ! w)) new_code \<noteq> []"
    using split_on_not_Nil [of "CHR 0x0A" new_code]
    by (simp add: smart_newLines_def map_idx_def)
  then show "take w (split_nl content) @
              smart_newLines (leading_ws (split_nl content ! w)) new_code @
              drop (w + n) (split_nl content) \<noteq> []" by simp
next
  have lt: "w < length (split_nl content)"
    using window_at_less [OF win oldLines_not_Nil] .
  then have "split_nl content ! w \<in> set (split_nl content)" by (rule nth_mem)
  then have "CHR 0x0A \<notin> set (split_nl content ! w)" by (rule split_on_no_sep)
  then have ind: "CHR 0x0A \<notin> set (leading_ws (split_nl content ! w))"
    using set_leading_ws by blast
  show "\<forall>l\<in>set (take w (split_nl content) @
              smart_newLines (leading_ws (split_nl content ! w)) new_code @
              drop (w + n) (split_nl content)). CHR 0x0A \<notin> set l"
  proof
    fix l
    assume "l \<in> set (take w (split_nl content) @
              smart_newLines (leading_ws (split_nl content ! w)) new_code @
              drop (w + n) (split_nl content))"
    then consider "l \<in> set (take w (split_nl content))"
      | "l \<in> set (smart_newLines (leading_ws (split_nl content ! w)) new_code)"
      | "l \<in> set (drop (w + n) (split_nl content))"
      by auto
    then show "CHR 0x0A \<notin> set l"
    proof cases
      case 1
      then have "l \<in> set (split_nl content)" by (rule in_set_takeD)
      then show ?thesis by (rule split_on_no_sep)
    next
      case 2
      then show ?thesis by (rule smart_newLines_no_newline [OF ind])
    next
      case 3
      then have "l \<in> set (split_nl content)" by (rule in_set_dropD)
      then show ?thesis by (rule split_on_no_sep)
    qed
  qed
qed

section \<open>Facts about insert\_lines\<close>

lemma relative_loop_none:
  "\<forall>l\<in>set ls. \<not> str_includes l pat \<Longrightarrow> relative_loop pat off ls i = None"
  by (induction ls arbitrary: i) auto

lemma relative_loop_first:
  "m < length ls \<Longrightarrow> str_includes (ls ! m) pat \<Longrightarrow> \<forall>k<m. \<not> str_includes (ls ! k) pat \<Longrightarrow>
     relative_loop pat off ls i =
       Some (int (i + m) + off + (if off \<ge> 0 then 1 else 0), ls ! m)"
proof (induction ls arbitrary: i m)
  case Nil
  then show ?case by simp
next
  case (Cons l ls)
  show ?case
  proof (cases m)
    case 0
    with Cons.prems show ?thesis by simp
  next
    case (Suc m')
    with Cons.prems have nl: "\<not> str_includes l pat" by auto
    have "relative_loop pat off ls (Suc i) =
            Some (int (Suc i + m') + off + (if off \<ge> 0 then 1 else 0), ls ! m')"
      using Cons.prems Suc by (intro Cons.IH) auto
    with nl Suc show ?thesis by simp
  qed
qed

lemma relative_loop_line:
  "relative_loop pat off ls i = Some (idx, l) \<Longrightarrow> l \<in> set ls"
  by (induction ls arbitrary: i) (auto split: if_splits)

lemma pattern_loop_line:
  "pattern_loop pat isAfter occ ls i cnt = (idx, l) \<Longrightarrow> l = [] \<or> l \<in> set ls"
  by (induction ls arbitrary: i cnt) (auto split: if_splits)

lemma insert_position_anchor:
  assumes "insert_position lines pos occ = Inr (idx, anchor)"
  shows "anchor = [] \<or> anchor \<in> set lines"
proof (cases "line_number pos")
  case (Some n)
  with assms show ?thesis by (simp add: insert_position_def)
next
  case None
  show ?thesis
  proof (cases "truthy_opt (js_or (after_pattern pos) (before_pattern pos))")
    case True
    with None assms have
      "pattern_loop (dflt [] (js_or (after_pattern pos) (before_pattern pos)))
         (truthy_opt (after_pattern pos)) occ lines 0 0 = (idx, anchor)"
      by (auto simp: insert_position_def Let_def split: if_splits)
    then show ?thesis by (rule pattern_loop_line)
  next
    case False
    with None assms show ?thesis
      by (auto simp: insert_position_def dest: relative_loop_line
          split: option.splits)
  qed
qed

lemma insertLines_ok:
  assumes "resolveSandboxPath env fp = Inr safePath"
    and "insertLines_read (dflt False cim) safePath fs = Inr (fc, fs1)"
    and "insert_position (split_nl fc) pos (dflt 1 occ) = Inr (idx, anchor)"
  shows "insertLines env fp content pos occ cim pres fs =
           (Inr \<lparr>il_success = True, il_file_path = fp, inserted_at_line = idx + 1,
                  lines_inserted =
                    length (split_nl (processedContent (dflt True pres) anchor content))\<rparr>,
            writeFile fs1 safePath
              (join_nl (splice (split_nl fc) idx 0
                 (split_nl (processedContent (dflt True pres) anchor content)))))"
  using assms by (simp add: insertLines_def Let_def)

lemma insertLines_position_error:
  assumes "resolveSandboxPath env fp = Inr safePath"
    and "insertLines_read (dflt False cim) safePath fs = Inr (fc, fs1)"
    and "insert_position (split_nl fc) pos (dflt 1 occ) = Inl e"
  shows "insertLines env fp content pos occ cim pres fs = (Inl e, fs1)"
  using assms by (simp add: insertLines_def)

lemma insertLines_read_existing:
  "files fs p = Some c \<Longrightarrow> insertLines_read cim p fs = Inr (c, fs)"
  by (simp add: insertLines_read_def readFile_def)

lemma js_or_falsy:
  "\<not> truthy_opt a \<Longrightarrow> \<not> truthy_opt b \<Longrightarrow> \<not> truthy_opt (js_or a b)"
  by (simp add: js_or_def)

lemma insert_position_relative:
  assumes "line_number pos = None" and "\<not> truthy_opt (after_pattern pos)"
    and "\<not> truthy_opt (before_pattern pos)" and "relative_to pos = Some rel"
  shows "insert_position lines pos occ =
           (case relative_loop (pattern rel) (offset rel) lines 0 of
              None \<Rightarrow> Inl (Error (''Pattern '' @ [CHR 0x22] @ pattern rel @ [CHR 0x22]
                                  @ '' not found''))
            | Some r \<Rightarrow> Inr r)"
  using assms js_or_falsy [OF assms(2,3)] by (simp add: insert_position_def)

lemma insert_position_none:
  assumes "line_number pos = None" and "\<not> truthy_opt (after_pattern pos)"
    and "\<not> truthy_opt (before_pattern pos)" and "relative_to pos = None"
  shows "insert_position lines pos occ = Inr (- 1, [])"
  using assms js_or_falsy [OF assms(2,3)] by (simp add: insert_position_def)

lemma insert_position_line_number:
  assumes "line_number pos = Some n"
  shows "insert_position lines pos occ =
           Inr (if insert_mode pos = Some ''before'' then n - 1 else n, [])"
  using assms by (simp add: insert_position_def)

lemma processedContent_no_anchor: "processedContent p [] content = content"
  by (simp add: processedContent_def truthy_def)

lemma splice_before_last:
  "xs \<noteq> [] \<Longrightarrow> splice xs (- 1) 0 items = butlast xs @ items @ [last xs]"
proof -
  assume ne: "xs \<noteq> []"
  then have k: "nat (int (length xs) - 1) = length xs - 1"
    by (cases xs) auto
  have "drop (length xs - 1) xs = [last xs]"
    using ne by (induction xs) (auto simp: drop_Cons')
  then show ?thesis
    using ne by (simp add: splice_def Let_def butlast_conv_take) (simp add: k)
qed

lemma splice_insert:
  "splice xs start 0 items =
     take (nat (if start < 0 then max (int (length xs) + start) 0 else min start (int (length xs)))) xs
     @ items @
     drop (nat (if start < 0 then max (int (length xs) + start) 0 else min start (int (length xs)))) xs"
  by (simp add: splice_def Let_def)

lemma smart_newLines_stripped:
  "reindented_stripped indent (split_nl payload) (smart_newLines indent payload)"
  by (auto simp: reindented_stripped_def smart_newLines_def truthy_def)

lemma processedContent_lines:
  assumes "anchor \<noteq> []" and "CHR 0x0A \<notin> set anchor"
  shows "split_nl (processedContent True anchor payload) =
           map_idx (\<lambda>line i. if i = 0 \<or> \<not> truthy (trim line) then line
                                else leading_ws anchor @ line) (split_nl payload)"
proof -
  have ind: "CHR 0x0A \<notin> set (leading_ws anchor)"
    using assms(2) set_leading_ws by blast
  have ne: "map_idx (\<lambda>line i. if i = 0 \<or> \<not> truthy (trim line) then line
                                else leading_ws anchor @ line) (split_nl payload) \<noteq> []"
    using split_on_not_Nil [of "CHR 0x0A" payload] by (simp add: map_idx_def)
  have nl: "\<forall>l\<in>set (map_idx (\<lambda>line i. if i = 0 \<or> \<not> truthy (trim line) then line
                                else leading_ws anchor @ line) (split_nl payload)).
              CHR 0x0A \<notin> set l"
  proof
    fix l
    assume "l \<in> set (map_idx (\<lambda>line i. if i = 0 \<or> \<not> truthy (trim line) then line
                                else leading_ws anchor @ line) (split_nl payload))"
    then obtain k where k: "k < length (split_nl payload)"
      and l: "l = map_idx (\<lambda>line i. if i = 0 \<or> \<not> truthy (trim line) then line
                                else leading_ws anchor @ line) (split_nl payload) ! k"
      by (auto simp: in_set_conv_nth)
    from k have "split_nl payload ! k \<in> set (split_nl payload)" by (rule nth_mem)
    then have "CHR 0x0A \<notin> set (split_nl payload ! k)" by (rule split_on_no_sep)
    with ind l k show "CHR 0x0A \<notin> set l" by auto
  qed
  show ?thesis
    using assms(1) split_join_on [OF ne nl]
    by (simp add: processedContent_def truthy_def)
qed

lemma processedContent_kept:
  assumes "anchor \<noteq> []" and "CHR 0x0A \<notin> set anchor"
  shows "reindented_kept (leading_ws anchor) (split_nl payload)
           (split_nl (processedContent True anchor payload))"
  by (auto simp: processedContent_lines [OF assms] reindented_kept_def truthy_def)

section \<open>Sandbox containment\<close>

text \<open>
  C1. Sandbox containment asks that the resolved path is the sandbox root or below it, or
  that the call fails. The check compares strings, so with the root \<open>/root\<close> the path
  \<open>../root-evil\<close> resolves to the sibling directory \<open>/root-evil\<close> and is returned.
\<close>

theorem resolveSandboxPath_sibling_escapes:
  "SANDBOX_DIR \<lparr>cwd = ''/root'', PROJECT_DIR = None\<rparr> = ''/root'' \<and>
   resolveSandboxPath \<lparr>cwd = ''/root'', PROJECT_DIR = None\<rparr> ''../root-evil''
     = Inr ''/root-evil'' \<and>
   \<not> inside ''/root'' ''/root-evil''"
  by code_simp

text \<open>What the check does ensure: a path that is returned starts, as a string, with the
  root.\<close>

lemma resolveSandboxPath_prefix:
  "resolveSandboxPath env userPath = Inr r \<Longrightarrow> startsWith r (SANDBOX_DIR env)"
  by (auto simp: resolveSandboxPath_def Let_def split: if_splits)

section \<open>The literal phase of smart\_replace\<close>

text \<open>
  C2. Exact-match priority: when \<open>old_code\<close> is a literal substring of the content of
  the file, \<open>_performSmartMatch\<close> returns the result of the literal replacement without
  entering the line loop, and smart\_replace in smart mode (the default) or fuzzy mode
  leaves the same file system as in exact mode, the file holding that replacement.
\<close>

theorem smart_mode_exact_priority:
  assumes path: "resolveSandboxPath env file_path = Inr safePath"
    and fl: "files fs safePath = Some content"
    and sub: "str_includes content old_code"
    and mode: "mode_opt = None \<or> mode_opt = Some ''smart'' \<or> mode_opt = Some ''fuzzy''"
  shows "performSmartMatch content old_code new_code
           = Inr (Some (replace content old_code new_code)) \<and>
         snd (smartReplace env file_path old_code new_code mode_opt fs)
           = snd (smartReplace env file_path old_code new_code (Some ''exact'') fs) \<and>
         files (snd (smartReplace env file_path old_code new_code mode_opt fs)) safePath
           = Some (replace content old_code new_code)"
proof -
  have a: "performSmartMatch content old_code new_code
             = Inr (Some (replace content old_code new_code))"
    by (simp add: performSmartMatch_def sub)
  have b: "snd (smartReplace env file_path old_code new_code mode_opt fs)
             = writeFile fs safePath (replace content old_code new_code)"
    using mode by (subst smartReplace_literal [OF path fl sub]) simp_all
  have c: "snd (smartReplace env file_path old_code new_code (Some ''exact'') fs)
             = writeFile fs safePath (replace content old_code new_code)"
    by (subst smartReplace_literal [OF path fl sub]) simp_all
  show ?thesis by (simp add: a b c writeFile_def)
qed

text \<open>The priority of the literal match on a file with an indented call.\<close>

theorem smart_mode_exact_priority_witness:
  "resolveSandboxPath example_process ''a.txt'' = Inr ''/root/a.txt'' \<and>
   files (example_fs ''  foo()'') ''/root/a.txt'' = Some ''  foo()'' \<and>
   str_includes ''  foo()'' ''foo'' \<and>
   snd (smartReplace example_process ''a.txt'' ''foo'' ''bar'' None (example_fs ''  foo()''))
     = snd (smartReplace example_process ''a.txt'' ''foo'' ''bar'' (Some ''exact'')
              (example_fs ''  foo()'')) \<and>
   files (snd (smartReplace example_process ''a.txt'' ''foo'' ''bar'' None
                 (example_fs ''  foo()''))) ''/root/a.txt'' = Some ''  bar()''"
proof -
  have sub: "str_includes ''  foo()'' ''foo''" by code_simp
  have rep: "replace ''  foo()'' ''foo'' ''bar'' = ''  bar()''" by code_simp
  have m: "(None :: string option) = None \<or> None = Some ''smart'' \<or> None = Some ''fuzzy''"
    by simp
  note t = smart_mode_exact_priority [OF example_path example_file sub m,
      where new_code = "''bar''"]
  note t1 = t [THEN conjunct2, THEN conjunct1]
  note t2 = t [THEN conjunct2, THEN conjunct2, unfolded rep]
  show ?thesis
    by (intro conjI) (rule example_path example_file sub t1 t2)+
qed

text \<open>
  C10, as stated: when \<open>old_code\<close> occurs two or more times, the leftmost occurrence is
  replaced and all later occurrences remain as they were. A later occurrence that overlaps
  the first does not: \<open>aa\<close> occurs in \<open>aaa\<close> at the positions 0 and 1, and replacing the
  first by \<open>X\<close> leaves \<open>Xa\<close>, in which \<open>aa\<close> occurs no more.
\<close>

theorem overlapping_occurrence_is_destroyed:
  "startsWith (drop 0 ''aaa'') ''aa'' \<and>
   startsWith (drop 1 ''aaa'') ''aa'' \<and>
   files (snd (smartReplace example_process ''a.txt'' ''aa'' ''X'' (Some ''exact'')
                 (example_fs ''aaa''))) ''/root/a.txt'' = Some ''Xa'' \<and>
   \<not> str_includes ''Xa'' ''aa''"
proof -
  have a: "startsWith (drop 0 ''aaa'') ''aa''" by code_simp
  have b: "startsWith (drop 1 ''aaa'') ''aa''" by code_simp
  have c: "files (snd (smartReplace example_process ''a.txt'' ''aa'' ''X'' (Some ''exact'')
                 (example_fs ''aaa''))) ''/root/a.txt'' = Some ''Xa''" by code_simp
  have d: "\<not> str_includes ''Xa'' ''aa''" by code_simp
  show ?thesis by (intro conjI) (rule a b c d)+
qed

text \<open>
  C10, amended. When \<open>old_code\<close> occurs in the content, with \<open>p\<close> the position that
  \<open>indexOf\<close> gives, smart\_replace in exact mode, and in smart or fuzzy mode through the
  literal phase, rewrites the occurrence at \<open>p\<close> only, which is the leftmost one: the file
  written is the text before \<open>p\<close>, the replacement text and the text after the occurrence.
  The text before the occurrence is kept as it was, and so is all the text from the end of
  the occurrence on, moved by the difference of the lengths: every later occurrence that
  does not overlap the first one is found there unchanged. The replacement text is
  \<open>new_code\<close> with the dollar patterns of \<open>String.prototype.replace\<close> expanded, which is
  \<open>new_code\<close> itself when it has no dollar sign.
\<close>

theorem exact_replace_first_occurrence_only:
  assumes path: "resolveSandboxPath env file_path = Inr safePath"
    and fl: "files fs safePath = Some content"
    and idx: "indexOf content old_code = Some p"
    and mode: "mode_opt = Some ''exact'' \<or> mode_opt = None \<or> mode_opt = Some ''smart'' \<or>
               mode_opt = Some ''fuzzy''"
  shows "startsWith (drop p content) old_code \<and>
         (\<forall>q<p. \<not> startsWith (drop q content) old_code) \<and>
         (let replacement =
                getSubstitution old_code (take p content)
                  (drop (p + length old_code) content) new_code;
              newContent = take p content @ replacement @ drop (p + length old_code) content
          in smartReplace env file_path old_code new_code mode_opt fs =
               (Inr \<lparr>sr_success = True, sr_file_path = file_path,
                      sr_match_mode = dflt ''smart'' mode_opt\<rparr>,
                writeFile fs safePath newContent) \<and>
             take p newContent = take p content \<and>
             (\<forall>q. p + length old_code \<le> q \<longrightarrow>
                  drop (q - length old_code + length replacement) newContent
                    = drop q content) \<and>
             (\<forall>q. p + length old_code \<le> q \<and> startsWith (drop q content) old_code \<longrightarrow>
                  startsWith (drop (q - length old_code + length replacement) newContent)
                    old_code) \<and>
             (CHR ''$'' \<notin> set new_code \<longrightarrow> replacement = new_code))"
proof -
  from indexOf_Some [OF idx] have le: "p \<le> length content"
    and here: "startsWith (drop p content) old_code"
    and first: "\<forall>q<p. \<not> startsWith (drop q content) old_code"
    by simp_all
  have sub: "str_includes content old_code"
    by (simp add: str_includes_def idx)
  define replacement where
    "replacement = getSubstitution old_code (take p content)
                     (drop (p + length old_code) content) new_code"
  define newContent where
    "newContent = take p content @ replacement @ drop (p + length old_code) content"
  have r: "replace content old_code new_code = newContent"
    by (simp add: replace_def idx newContent_def replacement_def)
  have w: "smartReplace env file_path old_code new_code mode_opt fs =
               (Inr \<lparr>sr_success = True, sr_file_path = file_path,
                      sr_match_mode = dflt ''smart'' mode_opt\<rparr>,
                writeFile fs safePath newContent)"
    using smartReplace_literal [OF path fl sub mode, of new_code] r by simp
  have lp: "length (take p content) = p"
    using le by simp
  have t: "take p newContent = take p content"
    using le by (simp add: newContent_def min_absorb2)
  have d: "drop (q - length old_code + length replacement) newContent = drop q content"
    if "p + length old_code \<le> q" for q
  proof -
    from that have e: "q - length old_code + length replacement
        = p + length replacement + (q - (p + length old_code))"
      by simp
    have "drop (q - length old_code + length replacement) newContent
            = drop (q - (p + length old_code)) (drop (p + length old_code) content)"
      unfolding e newContent_def
      using le by (simp add: min_absorb2)
    also have "\<dots> = drop q content"
      using that by simp
    finally show ?thesis .
  qed
  have n: "CHR ''$'' \<notin> set new_code \<longrightarrow> replacement = new_code"
    by (simp add: replacement_def getSubstitution_no_dollar)
  have d': "\<forall>q. p + length old_code \<le> q \<longrightarrow>
              drop (q - length old_code + length replacement) newContent = drop q content"
    using d by simp
  have o: "\<forall>q. p + length old_code \<le> q \<and> startsWith (drop q content) old_code \<longrightarrow>
              startsWith (drop (q - length old_code + length replacement) newContent) old_code"
    using d by simp
  have "smartReplace env file_path old_code new_code mode_opt fs =
               (Inr \<lparr>sr_success = True, sr_file_path = file_path,
                      sr_match_mode = dflt ''smart'' mode_opt\<rparr>,
                writeFile fs safePath newContent) \<and>
        take p newContent = take p content \<and>
        (\<forall>q. p + length old_code \<le> q \<longrightarrow>
              drop (q - length old_code + length replacement) newContent = drop q content) \<and>
        (\<forall>q. p + length old_code \<le> q \<and> startsWith (drop q content) old_code \<longrightarrow>
              startsWith (drop (q - length old_code + length replacement) newContent)
                old_code) \<and>
        (CHR ''$'' \<notin> set new_code \<longrightarrow> replacement = new_code)"
    by (intro conjI) (rule w t d' o n)+
  then have "let replacement =
                getSubstitution old_code (take p content)
                  (drop (p + length old_code) content) new_code;
              newContent = take p content @ replacement @ drop (p + length old_code) content
          in smartReplace env file_path old_code new_code mode_opt fs =
               (Inr \<lparr>sr_success = True, sr_file_path = file_path,
                      sr_match_mode = dflt ''smart'' mode_opt\<rparr>,
                writeFile fs safePath newContent) \<and>
             take p newContent = take p content \<and>
             (\<forall>q. p + length old_code \<le> q \<longrightarrow>
                  drop (q - length old_code + length replacement) newContent
                    = drop q content) \<and>
             (\<forall>q. p + length old_code \<le> q \<and> startsWith (drop q content) old_code \<longrightarrow>
                  startsWith (drop (q - length old_code + length replacement) newContent)
                    old_code) \<and>
             (CHR ''$'' \<notin> set new_code \<longrightarrow> replacement = new_code)"
    unfolding Let_def newContent_def replacement_def .
  with here first show ?thesis by (intro conjI)
qed

text \<open>Two occurrences of \<open>foo\<close> that do not overlap: the first one, at position 2, is
  replaced, and the second one, at position 7, is found at position 7 of the new
  content.\<close>

theorem exact_replace_first_occurrence_only_witness:
  "resolveSandboxPath example_process ''a.txt'' = Inr ''/root/a.txt'' \<and>
   files (example_fs ''a foo, foo'') ''/root/a.txt'' = Some ''a foo, foo'' \<and>
   indexOf ''a foo, foo'' ''foo'' = Some 2 \<and>
   2 + length ''foo'' \<le> (7::nat) \<and>
   startsWith (drop 7 ''a foo, foo'') ''foo'' \<and>
   smartReplace example_process ''a.txt'' ''foo'' ''bar'' (Some ''exact'')
       (example_fs ''a foo, foo'') =
     (Inr \<lparr>sr_success = True, sr_file_path = ''a.txt'', sr_match_mode = ''exact''\<rparr>,
      writeFile (example_fs ''a foo, foo'') ''/root/a.txt'' ''a bar, foo'') \<and>
   startsWith (drop 7 ''a bar, foo'') ''foo''"
proof -
  have idx: "indexOf ''a foo, foo'' ''foo'' = Some 2" by code_simp
  have m: "Some ''exact'' = Some ''exact'' \<or> Some ''exact'' = None \<or>
           Some ''exact'' = Some ''smart'' \<or> Some ''exact'' = Some ''fuzzy''"
    by simp
  have q: "2 + length ''foo'' \<le> (7::nat)" by simp
  have later: "startsWith (drop 7 ''a foo, foo'') ''foo''" by code_simp
  have g: "getSubstitution ''foo'' (take 2 ''a foo, foo'')
             (drop (2 + length ''foo'') ''a foo, foo'') ''bar'' = ''bar''"
    by code_simp
  have nc: "take 2 ''a foo, foo'' @ ''bar'' @ drop (2 + length ''foo'') ''a foo, foo''
              = ''a bar, foo''"
    by simp
  note t = exact_replace_first_occurrence_only [OF example_path example_file idx m,
      where new_code = "''bar''", THEN conjunct2, THEN conjunct2]
  have w: "smartReplace example_process ''a.txt'' ''foo'' ''bar'' (Some ''exact'')
       (example_fs ''a foo, foo'') =
     (Inr \<lparr>sr_success = True, sr_file_path = ''a.txt'', sr_match_mode = ''exact''\<rparr>,
      writeFile (example_fs ''a foo, foo'') ''/root/a.txt'' ''a bar, foo'')"
    using t by (simp add: Let_def g)
  have "startsWith (drop (7 - length ''foo'' + length ''bar'') ''a bar, foo'') ''foo''"
    using t q later by (simp add: Let_def g)
  then have o: "startsWith (drop 7 ''a bar, foo'') ''foo''"
    by simp
  show ?thesis
    by (intro conjI) (rule example_path example_file idx q later w o)+
qed

text \<open>
  C8. Failure atomicity of replacement: when the file has no literal occurrence of
  \<open>old_code\<close> in exact mode, or \<open>_performSmartMatch\<close> returns null in smart or fuzzy
  mode, smart\_replace fails with the message of that mode and the file system is the one
  before the call.
\<close>

theorem smartReplace_no_match_leaves_file:
  assumes path: "resolveSandboxPath env file_path = Inr safePath"
    and fl: "files fs safePath = Some content"
    and nomatch:
      "(mode_opt = Some ''exact'' \<and> \<not> str_includes content old_code) \<or>
       ((mode_opt = None \<or> mode_opt = Some ''smart'' \<or> mode_opt = Some ''fuzzy'') \<and>
        performSmartMatch content old_code new_code = Inr None)"
  shows "smartReplace env file_path old_code new_code mode_opt fs =
           (Inl (Error (''smart_replace failed: '' @
                   (if mode_opt = Some ''exact'' then ''Exact match not found''
                    else ''No match found with smart matching''))), fs)"
  using nomatch
  by (auto simp: smartReplace_def smartReplace_newContent_def path readFile_Some [OF fl])

text \<open>A file without the text looked for.\<close>

theorem smartReplace_no_match_leaves_file_witness:
  "resolveSandboxPath example_process ''a.txt'' = Inr ''/root/a.txt'' \<and>
   files (example_fs ''abc'') ''/root/a.txt'' = Some ''abc'' \<and>
   performSmartMatch ''abc'' ''xyz'' ''new'' = Inr None \<and>
   smartReplace example_process ''a.txt'' ''xyz'' ''new'' None (example_fs ''abc'') =
     (Inl (Error ''smart_replace failed: No match found with smart matching''),
      example_fs ''abc'')"
proof -
  have nm: "performSmartMatch ''abc'' ''xyz'' ''new'' = Inr None" by code_simp
  show ?thesis
    using smartReplace_no_match_leaves_file [OF example_path example_file,
        where mode_opt = None and old_code = "''xyz''" and new_code = "''new''"]
      example_path nm
    by (simp add: example_file)
qed

text \<open>Every failure of smart\_replace, whatever its cause, leaves the file system as it
  was.\<close>

lemma smartReplace_failure_leaves_file:
  "fst (smartReplace env file_path old_code new_code mode_opt fs) = Inl e \<Longrightarrow>
   snd (smartReplace env file_path old_code new_code mode_opt fs) = fs"
  by (auto simp: smartReplace_def Let_def split: sum.splits prod.splits)

text \<open>
  C6, as stated: an empty \<open>old_code\<close> is rejected and the file is not modified. The code
  has no such check: the empty string is a substring of every content, so the call
  succeeds and the new code is put in front of the content.
\<close>

theorem empty_old_code_is_accepted:
  "fst (smartReplace example_process ''a.txt'' [] ''X'' None (example_fs ''abc''))
     = Inr \<lparr>sr_success = True, sr_file_path = ''a.txt'', sr_match_mode = ''smart''\<rparr> \<and>
   files (example_fs ''abc'') ''/root/a.txt'' = Some ''abc'' \<and>
   files (snd (smartReplace example_process ''a.txt'' [] ''X'' None (example_fs ''abc'')))
     ''/root/a.txt'' = Some ''Xabc''"
  by code_simp

text \<open>
  C6, amended. smart\_replace with an empty \<open>old_code\<close> does not fail in any mode: the
  literal phase matches at position 0 and the file is rewritten to the expanded
  \<open>new_code\<close> followed by the old content.
\<close>

theorem smartReplace_empty_old_code:
  assumes path: "resolveSandboxPath env file_path = Inr safePath"
    and fl: "files fs safePath = Some content"
    and mode: "mode_opt = Some ''exact'' \<or> mode_opt = None \<or> mode_opt = Some ''smart'' \<or>
               mode_opt = Some ''fuzzy''"
  shows "smartReplace env file_path [] new_code mode_opt fs =
           (Inr \<lparr>sr_success = True, sr_file_path = file_path,
                  sr_match_mode = dflt ''smart'' mode_opt\<rparr>,
            writeFile fs safePath (getSubstitution [] [] content new_code @ content))"
proof -
  have sub: "str_includes content []"
    by (simp add: str_includes_def indexOf_empty)
  have "replace content [] new_code = getSubstitution [] [] content new_code @ content"
    by (simp add: replace_def indexOf_empty)
  with smartReplace_literal [OF path fl sub mode, of new_code] show ?thesis by simp
qed

text \<open>The empty \<open>old_code\<close> in fuzzy mode.\<close>

theorem smartReplace_empty_old_code_witness:
  "resolveSandboxPath example_process ''a.txt'' = Inr ''/root/a.txt'' \<and>
   files (example_fs ''abc'') ''/root/a.txt'' = Some ''abc'' \<and>
   smartReplace example_process ''a.txt'' [] ''X'' (Some ''fuzzy'') (example_fs ''abc'') =
     (Inr \<lparr>sr_success = True, sr_file_path = ''a.txt'', sr_match_mode = ''fuzzy''\<rparr>,
      writeFile (example_fs ''abc'') ''/root/a.txt'' ''Xabc'')"
  using smartReplace_empty_old_code [OF example_path example_file,
      where mode_opt = "Some ''fuzzy''" and new_code = "''X''"] example_path
  by (simp add: example_file)


section \<open>The line loop of smart\_replace\<close>

text \<open>
  C3, as stated: whenever the content has two or more windows of lines equal to the trimmed
  lines of \<open>old_code\<close>, smart mode rewrites the window with the lowest line index and
  nothing else. The literal phase runs first: in the content \<open>xfoo\<close>, \<open>foo\<close>, \<open>foo\<close>
  the windows for \<open>foo\<close> are lines 1 and 2, but \<open>foo\<close> occurs literally inside line 0,
  which is no window, and that occurrence is the one rewritten; the window at line 1 is
  left as it was.
\<close>

theorem literal_match_preempts_lowest_window:
  "window_at (split_nl three_lines) (map trim (split_nl (trim ''foo''))) 1 \<and>
   window_at (split_nl three_lines) (map trim (split_nl (trim ''foo''))) 2 \<and>
   \<not> window_at (split_nl three_lines) (map trim (split_nl (trim ''foo''))) 0 \<and>
   performSmartMatch three_lines ''foo'' ''bar''
     = Inr (Some (''xbar'' @ [CHR 0x0A] @ ''foo'' @ [CHR 0x0A] @ ''foo''))"
proof -
  have a: "window_at (split_nl three_lines) (map trim (split_nl (trim ''foo''))) 1"
    by code_simp
  have b: "window_at (split_nl three_lines) (map trim (split_nl (trim ''foo''))) 2"
    by code_simp
  have c: "\<not> window_at (split_nl three_lines) (map trim (split_nl (trim ''foo''))) 0"
    by code_simp
  have d: "performSmartMatch three_lines ''foo'' ''bar''
     = Inr (Some (''xbar'' @ [CHR 0x0A] @ ''foo'' @ [CHR 0x0A] @ ''foo''))"
    by code_simp
  show ?thesis by (intro conjI) (rule a b c d)+
qed

text \<open>
  C3, amended. When \<open>old_code\<close> is not a literal substring of the content, so that the
  line loop is reached, and the content has a window, smart mode rewrites the window with
  the lowest line index \<open>w\<close> only: the lines of the result are the lines before \<open>w\<close>,
  then as many lines as \<open>new_code\<close> has, then the lines after the window, all of them
  as they were, later windows beyond the first one included.
\<close>

theorem fuzzy_rewrites_lowest_window:
  assumes nolit: "\<not> str_includes content old_code"
    and win: "window_at (split_nl content) (map trim (split_nl (trim old_code))) w"
    and low: "\<forall>k<w. \<not> window_at (split_nl content) (map trim (split_nl (trim old_code))) k"
  shows "\<exists>newLines result.
           performSmartMatch content old_code new_code = Inr (Some result) \<and>
           length newLines = length (split_nl new_code) \<and>
           split_nl result =
             take w (split_nl content) @ newLines @
             drop (w + length (split_nl (trim old_code))) (split_nl content)"
proof (intro exI conjI)
  show "performSmartMatch content old_code new_code =
           Inr (Some (join_nl
             (take w (split_nl content) @
              smart_newLines (leading_ws (split_nl content ! w)) new_code @
              drop (w + length (split_nl (trim old_code))) (split_nl content))))"
    by (rule performSmartMatch_fuzzy [OF nolit win low])
  show "length (smart_newLines (leading_ws (split_nl content ! w)) new_code)
          = length (split_nl new_code)"
    by (simp add: smart_newLines_def)
  show "split_nl (join_nl
             (take w (split_nl content) @
              smart_newLines (leading_ws (split_nl content ! w)) new_code @
              drop (w + length (split_nl (trim old_code))) (split_nl content)))
         = take w (split_nl content) @
              smart_newLines (leading_ws (split_nl content ! w)) new_code @
              drop (w + length (split_nl (trim old_code))) (split_nl content)"
    by (rule fuzzy_lines [OF win])
qed


text \<open>Two equal blocks, the first one rewritten.\<close>

theorem fuzzy_rewrites_lowest_window_witness:
  "\<not> str_includes two_blocks one_block \<and>
   window_at (split_nl two_blocks) (map trim (split_nl (trim one_block))) 0 \<and>
   window_at (split_nl two_blocks) (map trim (split_nl (trim one_block))) 2 \<and>
   (\<exists>newLines result.
      performSmartMatch two_blocks one_block ''baz()'' = Inr (Some result) \<and>
      length newLines = 1 \<and>
      split_nl result = newLines @ [''  foo()'', ''  bar()''])"
proof -
  have a: "\<not> str_includes two_blocks one_block" by code_simp
  have b: "window_at (split_nl two_blocks) (map trim (split_nl (trim one_block))) 0"
    by code_simp
  have b2: "window_at (split_nl two_blocks) (map trim (split_nl (trim one_block))) 2"
    by code_simp
  have c: "\<forall>k<0::nat. \<not> window_at (split_nl two_blocks) (map trim (split_nl (trim one_block))) k"
    by simp
  have d: "split_nl ''baz()'' = [''baz()'']" by code_simp
  have e: "drop (length (split_nl (trim one_block))) (split_nl two_blocks)
             = [''  foo()'', ''  bar()'']" by code_simp
  show ?thesis
    using fuzzy_rewrites_lowest_window [OF a b c, of "''baz()''"] a b b2
    by (simp add: d e)
qed


section \<open>The insertion position of insert\_lines\<close>

text \<open>
  C9. A position with none of the strategy fields (no line number, no after or before
  pattern that is a non-empty string, no relative descriptor) does not make insert\_lines
  fail once the file has been read: the index stays -1, the call reports success with
  \<open>inserted_at_line\<close> 0, and the splice puts the payload immediately before the last
  line of the file.
\<close>

theorem unrecognised_position_inserts_before_last_line:
  assumes path: "resolveSandboxPath env fp = Inr safePath"
    and rd: "insertLines_read (dflt False cim) safePath fs = Inr (fc, fs1)"
    and pos: "line_number pos = None" "\<not> truthy_opt (after_pattern pos)"
      "\<not> truthy_opt (before_pattern pos)" "relative_to pos = None"
  shows "insertLines env fp content pos occ cim pres fs =
           (Inr \<lparr>il_success = True, il_file_path = fp, inserted_at_line = 0,
                  lines_inserted = length (split_nl content)\<rparr>,
            writeFile fs1 safePath
              (join_nl (butlast (split_nl fc) @ split_nl content @ [last (split_nl fc)])))"
proof -
  have p: "insert_position (split_nl fc) pos (dflt 1 occ) = Inr (- 1, [])"
    by (rule insert_position_none [OF pos])
  show ?thesis
    by (simp add: insertLines_ok [OF path rd p] processedContent_no_anchor
        splice_before_last [OF split_on_not_Nil])
qed

text \<open>The empty position on a file of two lines.\<close>

theorem unrecognised_position_inserts_before_last_line_witness:
  "resolveSandboxPath example_process ''a.txt'' = Inr ''/root/a.txt'' \<and>
   insertLines_read (dflt False None) ''/root/a.txt'' (example_fs two_lines)
     = Inr (two_lines, example_fs two_lines) \<and>
   line_number empty_position = None \<and> \<not> truthy_opt (after_pattern empty_position) \<and>
   \<not> truthy_opt (before_pattern empty_position) \<and> relative_to empty_position = None \<and>
   insertLines example_process ''a.txt'' ''X'' empty_position None None None
       (example_fs two_lines) =
     (Inr \<lparr>il_success = True, il_file_path = ''a.txt'', inserted_at_line = 0,
            lines_inserted = 1\<rparr>,
      writeFile (example_fs two_lines) ''/root/a.txt''
        (''a'' @ [CHR 0x0A] @ ''X'' @ [CHR 0x0A] @ ''b''))"
proof -
  have rd: "insertLines_read (dflt False None) ''/root/a.txt'' (example_fs two_lines)
     = Inr (two_lines, example_fs two_lines)"
    by (rule insertLines_read_existing [OF example_file])
  have p1: "line_number empty_position = None" by (simp add: empty_position_def)
  have p2: "\<not> truthy_opt (after_pattern empty_position)" by (simp add: empty_position_def)
  have p3: "\<not> truthy_opt (before_pattern empty_position)" by (simp add: empty_position_def)
  have p4: "relative_to empty_position = None" by (simp add: empty_position_def)
  have l: "split_nl two_lines = [''a'', ''b'']" by code_simp
  have x: "split_nl ''X'' = [''X'']" by code_simp
  note t = unrecognised_position_inserts_before_last_line [OF example_path rd p1 p2 p3 p4,
      where content = "''X''" and occ = None and pres = None]
  have r: "insertLines example_process ''a.txt'' ''X'' empty_position None None None
       (example_fs two_lines) =
     (Inr \<lparr>il_success = True, il_file_path = ''a.txt'', inserted_at_line = 0,
            lines_inserted = 1\<rparr>,
      writeFile (example_fs two_lines) ''/root/a.txt''
        (''a'' @ [CHR 0x0A] @ ''X'' @ [CHR 0x0A] @ ''b''))"
    using t by (simp add: l x)
  show ?thesis
    by (intro conjI) (rule example_path rd p1 p2 p3 p4 r)+
qed

text \<open>
  C7, as stated: a line number below 0 or above the line count plus one makes
  insert\_lines fail with an out-of-range error. Nothing in the code checks the line
  number: on a file of two lines the numbers 100 and -5 are both accepted, and the
  payload goes to the end and to the start of the file.
\<close>

theorem out_of_range_line_number_is_accepted:
  "length (split_nl two_lines) = 2 \<and>
   fst (insertLines example_process ''a.txt'' ''X'' (empty_position\<lparr>line_number := Some 100\<rparr>)
          None None None (example_fs two_lines))
     = Inr \<lparr>il_success = True, il_file_path = ''a.txt'', inserted_at_line = 101,
             lines_inserted = 1\<rparr> \<and>
   files (snd (insertLines example_process ''a.txt'' ''X''
                 (empty_position\<lparr>line_number := Some 100\<rparr>) None None None
                 (example_fs two_lines))) ''/root/a.txt''
     = Some (''a'' @ [CHR 0x0A] @ ''b'' @ [CHR 0x0A] @ ''X'') \<and>
   fst (insertLines example_process ''a.txt'' ''X'' (empty_position\<lparr>line_number := Some (- 5)\<rparr>)
          None None None (example_fs two_lines))
     = Inr \<lparr>il_success = True, il_file_path = ''a.txt'', inserted_at_line = - 4,
             lines_inserted = 1\<rparr> \<and>
   files (snd (insertLines example_process ''a.txt'' ''X''
                 (empty_position\<lparr>line_number := Some (- 5)\<rparr>) None None None
                 (example_fs two_lines))) ''/root/a.txt''
     = Some (''X'' @ [CHR 0x0A] @ ''a'' @ [CHR 0x0A] @ ''b'')"
proof -
  have a: "length (split_nl two_lines) = 2" by code_simp
  have b: "fst (insertLines example_process ''a.txt'' ''X'' (empty_position\<lparr>line_number := Some 100\<rparr>)
          None None None (example_fs two_lines))
     = Inr \<lparr>il_success = True, il_file_path = ''a.txt'', inserted_at_line = 101,
             lines_inserted = 1\<rparr>" by code_simp
  have c: "files (snd (insertLines example_process ''a.txt'' ''X''
                 (empty_position\<lparr>line_number := Some 100\<rparr>) None None None
                 (example_fs two_lines))) ''/root/a.txt''
     = Some (''a'' @ [CHR 0x0A] @ ''b'' @ [CHR 0x0A] @ ''X'')" by code_simp
  have d: "fst (insertLines example_process ''a.txt'' ''X'' (empty_position\<lparr>line_number := Some (- 5)\<rparr>)
          None None None (example_fs two_lines))
     = Inr \<lparr>il_success = True, il_file_path = ''a.txt'', inserted_at_line = - 4,
             lines_inserted = 1\<rparr>" by code_simp
  have e: "files (snd (insertLines example_process ''a.txt'' ''X''
                 (empty_position\<lparr>line_number := Some (- 5)\<rparr>) None None None
                 (example_fs two_lines))) ''/root/a.txt''
     = Some (''X'' @ [CHR 0x0A] @ ''a'' @ [CHR 0x0A] @ ''b'')" by code_simp
  show ?thesis by (intro conjI) (rule a b c d e)+
qed

text \<open>
  C7, amended. With the line-number strategy and a line number that is a safe integer,
  insert\_lines never fails on the value of the line number: the index is the line number
  (one less in mode \<open>before\<close>), the call reports \<open>inserted_at_line\<close> as the index plus
  one, and the splice clamps the index to the file, an index above the line count
  appending at the end and a negative index counting from the end, not below the start.
\<close>

theorem line_number_position_is_clamped:
  assumes path: "resolveSandboxPath env fp = Inr safePath"
    and rd: "insertLines_read (dflt False cim) safePath fs = Inr (fc, fs1)"
    and ln: "line_number pos = Some n"
    and safe: "isSafeInteger n"
  shows "(let idx = (if insert_mode pos = Some ''before'' then n - 1 else n);
              len = int (length (split_nl fc));
              k = nat (if idx < 0 then max (len + idx) 0 else min idx len)
          in insertLines env fp content pos occ cim pres fs =
               (Inr \<lparr>il_success = True, il_file_path = fp, inserted_at_line = idx + 1,
                      lines_inserted = length (split_nl content)\<rparr>,
                writeFile fs1 safePath
                  (join_nl (take k (split_nl fc) @ split_nl content @ drop k (split_nl fc)))))"
proof -
  have p: "insert_position (split_nl fc) pos (dflt 1 occ) =
             Inr (if insert_mode pos = Some ''before'' then n - 1 else n, [])"
    by (rule insert_position_line_number [OF ln])
  show ?thesis
    unfolding Let_def
    by (simp only: insertLines_ok [OF path rd p] processedContent_no_anchor splice_insert)
qed

text \<open>Line 100 of a file of two lines.\<close>

theorem line_number_position_is_clamped_witness:
  "resolveSandboxPath example_process ''a.txt'' = Inr ''/root/a.txt'' \<and>
   insertLines_read (dflt False None) ''/root/a.txt'' (example_fs two_lines)
     = Inr (two_lines, example_fs two_lines) \<and>
   line_number (empty_position\<lparr>line_number := Some 100\<rparr>) = Some 100 \<and>
   isSafeInteger 100 \<and>
   insertLines example_process ''a.txt'' ''X'' (empty_position\<lparr>line_number := Some 100\<rparr>)
       None None None (example_fs two_lines) =
     (Inr \<lparr>il_success = True, il_file_path = ''a.txt'', inserted_at_line = 101,
            lines_inserted = 1\<rparr>,
      writeFile (example_fs two_lines) ''/root/a.txt''
        (''a'' @ [CHR 0x0A] @ ''b'' @ [CHR 0x0A] @ ''X''))"
proof -
  have rd: "insertLines_read (dflt False None) ''/root/a.txt'' (example_fs two_lines)
     = Inr (two_lines, example_fs two_lines)"
    by (rule insertLines_read_existing [OF example_file])
  have ln: "line_number (empty_position\<lparr>line_number := Some 100\<rparr>) = Some 100" by simp
  have safe: "isSafeInteger 100" by (simp add: isSafeInteger_def MAX_SAFE_INTEGER_def)
  have im: "insert_mode (empty_position\<lparr>line_number := Some 100\<rparr>) = None"
    by (simp add: empty_position_def)
  have l: "split_nl two_lines = [''a'', ''b'']" by code_simp
  have x: "split_nl ''X'' = [''X'']" by code_simp
  note t = line_number_position_is_clamped [OF example_path rd ln safe,
      where content = "''X''" and occ = None and pres = None]
  have r: "insertLines example_process ''a.txt'' ''X'' (empty_position\<lparr>line_number := Some 100\<rparr>)
       None None None (example_fs two_lines) =
     (Inr \<lparr>il_success = True, il_file_path = ''a.txt'', inserted_at_line = 101,
            lines_inserted = 1\<rparr>,
      writeFile (example_fs two_lines) ''/root/a.txt''
        (''a'' @ [CHR 0x0A] @ ''b'' @ [CHR 0x0A] @ ''X''))"
    using t by (simp add: l x im Let_def)
  show ?thesis
    by (intro conjI) (rule example_path rd ln safe r)+
qed


text \<open>
  C5. The relative strategy, reached when no line number and no non-empty after or before
  pattern is given, with an offset whose magnitude plus the line count of the file is a
  safe integer: if no line of the file contains the pattern, insert\_lines fails with
  the pattern-not-found error; otherwise, with \<open>m\<close> the index of the first line that
  contains the pattern, the insertion index is \<open>m + offset + 1\<close> when the offset is not
  negative and \<open>m + offset\<close> when it is, whatever \<open>match_occurrence\<close> is, and the
  payload is spliced in there with line \<open>m\<close> as the anchor of the indentation.
\<close>

theorem relative_to_uses_first_match:
  assumes path: "resolveSandboxPath env fp = Inr safePath"
    and rd: "insertLines_read (dflt False cim) safePath fs = Inr (fc, fs1)"
    and pos: "line_number pos = None" "\<not> truthy_opt (after_pattern pos)"
      "\<not> truthy_opt (before_pattern pos)" "relative_to pos = Some rel"
    and safe: "\<bar>offset rel\<bar> + int (length (split_nl fc)) \<le> MAX_SAFE_INTEGER"
  shows "((\<forall>l\<in>set (split_nl fc). \<not> str_includes l (pattern rel)) \<longrightarrow>
            insertLines env fp content pos occ cim pres fs =
              (Inl (Error (''Pattern '' @ [CHR 0x22] @ pattern rel @ [CHR 0x22]
                           @ '' not found'')), fs1)) \<and>
         (\<forall>m. m < length (split_nl fc) \<and> str_includes (split_nl fc ! m) (pattern rel) \<and>
               (\<forall>k<m. \<not> str_includes (split_nl fc ! k) (pattern rel)) \<longrightarrow>
            (let idx = (if offset rel \<ge> 0 then int m + offset rel + 1
                        else int m + offset rel);
                 processed = processedContent (dflt True pres) (split_nl fc ! m) content
             in insertLines env fp content pos occ cim pres fs =
                  (Inr \<lparr>il_success = True, il_file_path = fp, inserted_at_line = idx + 1,
                         lines_inserted = length (split_nl processed)\<rparr>,
                   writeFile fs1 safePath
                     (join_nl (splice (split_nl fc) idx 0 (split_nl processed))))))"
proof (intro conjI impI allI)
  assume "\<forall>l\<in>set (split_nl fc). \<not> str_includes l (pattern rel)"
  then have "relative_loop (pattern rel) (offset rel) (split_nl fc) 0 = None"
    by (rule relative_loop_none)
  then have "insert_position (split_nl fc) pos (dflt 1 occ) =
               Inl (Error (''Pattern '' @ [CHR 0x22] @ pattern rel @ [CHR 0x22]
                           @ '' not found''))"
    by (simp add: insert_position_relative [OF pos])
  then show "insertLines env fp content pos occ cim pres fs =
              (Inl (Error (''Pattern '' @ [CHR 0x22] @ pattern rel @ [CHR 0x22]
                           @ '' not found'')), fs1)"
    by (rule insertLines_position_error [OF path rd])
next
  fix m
  assume h: "m < length (split_nl fc) \<and> str_includes (split_nl fc ! m) (pattern rel) \<and>
               (\<forall>k<m. \<not> str_includes (split_nl fc ! k) (pattern rel))"
  then have "relative_loop (pattern rel) (offset rel) (split_nl fc) 0 =
               Some (int (0 + m) + offset rel + (if offset rel \<ge> 0 then 1 else 0),
                     split_nl fc ! m)"
    by (intro relative_loop_first) simp_all
  then have p: "insert_position (split_nl fc) pos (dflt 1 occ) =
               Inr (if offset rel \<ge> 0 then int m + offset rel + 1 else int m + offset rel,
                    split_nl fc ! m)"
    by (simp add: insert_position_relative [OF pos])
  show "(let idx = (if offset rel \<ge> 0 then int m + offset rel + 1
                        else int m + offset rel);
                 processed = processedContent (dflt True pres) (split_nl fc ! m) content
             in insertLines env fp content pos occ cim pres fs =
                  (Inr \<lparr>il_success = True, il_file_path = fp, inserted_at_line = idx + 1,
                         lines_inserted = length (split_nl processed)\<rparr>,
                   writeFile fs1 safePath
                     (join_nl (splice (split_nl fc) idx 0 (split_nl processed)))))"
    unfolding Let_def by (rule insertLines_ok [OF path rd p])
qed

text \<open>The pattern \<open>b\<close> with occurrence 2: the first line with a \<open>b\<close> is used. The
  pattern \<open>z\<close>: not found.\<close>

theorem relative_to_uses_first_match_witness:
  "resolveSandboxPath example_process ''a.txt'' = Inr ''/root/a.txt'' \<and>
   insertLines_read (dflt False None) ''/root/a.txt'' (example_fs anchored_lines)
     = Inr (anchored_lines, example_fs anchored_lines) \<and>
   \<bar>0\<bar> + int (length (split_nl anchored_lines)) \<le> MAX_SAFE_INTEGER \<and>
   insertLines example_process ''a.txt'' ''X'' relative_z (Some 2) None None
       (example_fs anchored_lines) =
     (Inl (Error (''Pattern '' @ [CHR 0x22] @ ''z'' @ [CHR 0x22] @ '' not found'')),
      example_fs anchored_lines) \<and>
   1 < length (split_nl anchored_lines) \<and> str_includes (split_nl anchored_lines ! 1) ''b'' \<and>
   \<not> str_includes (split_nl anchored_lines ! 0) ''b'' \<and>
   insertLines example_process ''a.txt'' ''X'' relative_b (Some 2) None None
       (example_fs anchored_lines) =
     (Inr \<lparr>il_success = True, il_file_path = ''a.txt'', inserted_at_line = 3,
            lines_inserted = 1\<rparr>,
      writeFile (example_fs anchored_lines) ''/root/a.txt''
        (join_nl [''a'', ''  b'', ''X'', ''b'']))"
proof -
  have rd: "insertLines_read (dflt False None) ''/root/a.txt'' (example_fs anchored_lines)
     = Inr (anchored_lines, example_fs anchored_lines)"
    by (rule insertLines_read_existing [OF example_file])
  have l: "split_nl anchored_lines = [''a'', ''  b'', ''b'']" by code_simp
  have z1: "line_number relative_z = None" by (simp add: relative_z_def empty_position_def)
  have z2: "\<not> truthy_opt (after_pattern relative_z)"
    by (simp add: relative_z_def empty_position_def)
  have z3: "\<not> truthy_opt (before_pattern relative_z)"
    by (simp add: relative_z_def empty_position_def)
  have z4: "relative_to relative_z = Some \<lparr>pattern = ''z'', offset = 0\<rparr>"
    by (simp add: relative_z_def)
  have b1: "line_number relative_b = None" by (simp add: relative_b_def empty_position_def)
  have b2: "\<not> truthy_opt (after_pattern relative_b)"
    by (simp add: relative_b_def empty_position_def)
  have b3: "\<not> truthy_opt (before_pattern relative_b)"
    by (simp add: relative_b_def empty_position_def)
  have b4: "relative_to relative_b = Some \<lparr>pattern = ''b'', offset = 0\<rparr>"
    by (simp add: relative_b_def)
  have safe: "\<bar>0\<bar> + int (length (split_nl anchored_lines)) \<le> MAX_SAFE_INTEGER"
    unfolding l by (simp add: MAX_SAFE_INTEGER_def)
  have sz: "\<bar>offset \<lparr>pattern = ''z'', offset = 0\<rparr>\<bar> + int (length (split_nl anchored_lines))
              \<le> MAX_SAFE_INTEGER"
    using safe by simp
  have sb: "\<bar>offset \<lparr>pattern = ''b'', offset = 0\<rparr>\<bar> + int (length (split_nl anchored_lines))
              \<le> MAX_SAFE_INTEGER"
    using safe by simp
  have nz: "\<forall>l\<in>set (split_nl anchored_lines). \<not> str_includes l ''z''"
    unfolding l by code_simp
  have m1: "1 < length (split_nl anchored_lines)" unfolding l by simp
  have m2: "str_includes (split_nl anchored_lines ! 1) ''b''" unfolding l by code_simp
  have m0: "\<not> str_includes (split_nl anchored_lines ! 0) ''b''" unfolding l by code_simp
  then have m3: "\<forall>k<1. \<not> str_includes (split_nl anchored_lines ! k) ''b''" by simp
  have pc: "processedContent True ''  b'' ''X'' = ''X''" by code_simp
  have x: "split_nl ''X'' = [''X'']" by code_simp
  have sp: "splice [''a'', ''  b'', ''b''] 2 0 [''X''] = [''a'', ''  b'', ''X'', ''b'']"
    by code_simp
  note tz = relative_to_uses_first_match [OF example_path rd z1 z2 z3 z4 sz,
      where content = "''X''" and occ = "Some 2" and pres = None, THEN conjunct1]
  have rz: "insertLines example_process ''a.txt'' ''X'' relative_z (Some 2) None None
       (example_fs anchored_lines) =
     (Inl (Error (''Pattern '' @ [CHR 0x22] @ ''z'' @ [CHR 0x22] @ '' not found'')),
      example_fs anchored_lines)"
    using tz nz by simp
  note tb = relative_to_uses_first_match [OF example_path rd b1 b2 b3 b4 sb,
      where content = "''X''" and occ = "Some 2" and pres = None, THEN conjunct2,
      THEN spec, of 1]
  have rb: "insertLines example_process ''a.txt'' ''X'' relative_b (Some 2) None None
       (example_fs anchored_lines) =
     (Inr \<lparr>il_success = True, il_file_path = ''a.txt'', inserted_at_line = 3,
            lines_inserted = 1\<rparr>,
      writeFile (example_fs anchored_lines) ''/root/a.txt''
        (join_nl [''a'', ''  b'', ''X'', ''b'']))"
    using tb m1 m2 m3 by (simp add: l Let_def pc x sp)
  show ?thesis
    by (intro conjI) (rule example_path rd safe rz m1 m2 m0 rb)+
qed

section \<open>Indentation adaptation\<close>

text \<open>
  C4, as stated: on the insert\_lines path too, every non-blank line of the payload after the
  first is stripped of its own leading and trailing white space before the indentation of
  the anchor is put in front. insert\_lines does not strip: after the anchor \<open>    b\<close> the
  payload line \<open>  Y\<close> is written with six spaces, the four of the anchor and its own two,
  where the claim gives four.
\<close>

theorem insert_lines_keeps_payload_whitespace:
  "insert_position (split_nl indented_file) after_b 1 = Inr (2, ''    b'') \<and>
   split_nl indented_payload = [''X'', ''  Y''] \<and>
   files (snd (insertLines example_process ''a.txt'' indented_payload after_b None None None
                 (example_fs indented_file))) ''/root/a.txt''
     = Some (join_nl [''a'', ''    b'', ''X'', ''      Y'']) \<and>
   leading_ws ''    b'' @ trim ''  Y'' = ''    Y''"
proof -
  have a: "insert_position (split_nl indented_file) after_b 1 = Inr (2, ''    b'')"
    by code_simp
  have b: "split_nl indented_payload = [''X'', ''  Y'']" by code_simp
  have c: "files (snd (insertLines example_process ''a.txt'' indented_payload after_b None None None
                 (example_fs indented_file))) ''/root/a.txt''
     = Some (join_nl [''a'', ''    b'', ''X'', ''      Y''])" by code_simp
  have d: "leading_ws ''    b'' @ trim ''  Y'' = ''    Y''" by code_simp
  show ?thesis by (intro conjI) (rule a b c d)+
qed

text \<open>
  C4, amended. On the fuzzy path of smart\_replace (no literal occurrence, lowest window
  \<open>w\<close>), the lines put in place of the window are the payload with the first line and the
  blank lines as they are and every other line trimmed and indented as line \<open>w\<close> of the
  content. On the insert\_lines path, when indentation is to be preserved and the position
  gave a non-empty anchor line, the lines spliced in are the payload with the first line
  and the blank lines as they are and every other line put after the leading white space
  of the anchor, its own leading and trailing white space kept.
\<close>

theorem indentation_adaptation:
  "(\<not> str_includes content old_code \<and>
    window_at (split_nl content) (map trim (split_nl (trim old_code))) w \<and>
    (\<forall>k<w. \<not> window_at (split_nl content) (map trim (split_nl (trim old_code))) k) \<longrightarrow>
      (\<exists>newLines.
         performSmartMatch content old_code payload =
           Inr (Some (join_nl (take w (split_nl content) @ newLines @
                   drop (w + length (split_nl (trim old_code))) (split_nl content)))) \<and>
         reindented_stripped (leading_ws (split_nl content ! w)) (split_nl payload) newLines))
   \<and>
   (resolveSandboxPath env fp = Inr safePath \<and>
    insertLines_read (dflt False cim) safePath fs = Inr (fc, fs1) \<and>
    insert_position (split_nl fc) pos (dflt 1 occ) = Inr (idx, anchor) \<and>
    anchor \<noteq> [] \<and> dflt True pres \<longrightarrow>
      (\<exists>inserted.
         insertLines env fp payload pos occ cim pres fs =
           (Inr \<lparr>il_success = True, il_file_path = fp, inserted_at_line = idx + 1,
                  lines_inserted = length (split_nl payload)\<rparr>,
            writeFile fs1 safePath (join_nl (splice (split_nl fc) idx 0 inserted))) \<and>
         reindented_kept (leading_ws anchor) (split_nl payload) inserted))"
proof (intro conjI impI)
  assume h: "\<not> str_includes content old_code \<and>
    window_at (split_nl content) (map trim (split_nl (trim old_code))) w \<and>
    (\<forall>k<w. \<not> window_at (split_nl content) (map trim (split_nl (trim old_code))) k)"
  have "performSmartMatch content old_code payload =
           Inr (Some (join_nl (take w (split_nl content) @
                   smart_newLines (leading_ws (split_nl content ! w)) payload @
                   drop (w + length (split_nl (trim old_code))) (split_nl content))))"
    using h by (intro performSmartMatch_fuzzy) simp_all
  then show "\<exists>newLines.
         performSmartMatch content old_code payload =
           Inr (Some (join_nl (take w (split_nl content) @ newLines @
                   drop (w + length (split_nl (trim old_code))) (split_nl content)))) \<and>
         reindented_stripped (leading_ws (split_nl content ! w)) (split_nl payload) newLines"
    using smart_newLines_stripped by blast
next
  assume h: "resolveSandboxPath env fp = Inr safePath \<and>
    insertLines_read (dflt False cim) safePath fs = Inr (fc, fs1) \<and>
    insert_position (split_nl fc) pos (dflt 1 occ) = Inr (idx, anchor) \<and>
    anchor \<noteq> [] \<and> dflt True pres"
  then have path: "resolveSandboxPath env fp = Inr safePath"
    and rd: "insertLines_read (dflt False cim) safePath fs = Inr (fc, fs1)"
    and p: "insert_position (split_nl fc) pos (dflt 1 occ) = Inr (idx, anchor)"
    and ne: "anchor \<noteq> []" and pres: "dflt True pres = True"
    by simp_all
  from insert_position_anchor [OF p] ne have "anchor \<in> set (split_nl fc)" by simp
  then have nl: "CHR 0x0A \<notin> set anchor" by (rule split_on_no_sep)
  have k: "reindented_kept (leading_ws anchor) (split_nl payload)
           (split_nl (processedContent True anchor payload))"
    by (rule processedContent_kept [OF ne nl])
  then have len: "length (split_nl (processedContent True anchor payload))
                    = length (split_nl payload)"
    by (simp add: reindented_kept_def)
  have "insertLines env fp payload pos occ cim pres fs =
           (Inr \<lparr>il_success = True, il_file_path = fp, inserted_at_line = idx + 1,
                  lines_inserted = length (split_nl payload)\<rparr>,
            writeFile fs1 safePath (join_nl (splice (split_nl fc) idx 0
               (split_nl (processedContent True anchor payload)))))"
    by (simp add: insertLines_ok [OF path rd p] pres len)
  with k show "\<exists>inserted.
         insertLines env fp payload pos occ cim pres fs =
           (Inr \<lparr>il_success = True, il_file_path = fp, inserted_at_line = idx + 1,
                  lines_inserted = length (split_nl payload)\<rparr>,
            writeFile fs1 safePath (join_nl (splice (split_nl fc) idx 0 inserted))) \<and>
         reindented_kept (leading_ws anchor) (split_nl payload) inserted"
    by blast
qed


text \<open>A payload of two lines on both paths.\<close>

theorem indentation_adaptation_witness:
  "\<not> str_includes two_blocks one_block \<and>
   window_at (split_nl two_blocks) (map trim (split_nl (trim one_block))) 0 \<and>
   (\<exists>newLines.
      performSmartMatch two_blocks one_block two_line_payload =
        Inr (Some (join_nl (take 0 (split_nl two_blocks) @ newLines @
                drop (0 + length (split_nl (trim one_block))) (split_nl two_blocks)))) \<and>
      reindented_stripped (leading_ws (split_nl two_blocks ! 0)) (split_nl two_line_payload)
        newLines) \<and>
   resolveSandboxPath example_process ''a.txt'' = Inr ''/root/a.txt'' \<and>
   insertLines_read (dflt False None) ''/root/a.txt'' (example_fs indented_file)
     = Inr (indented_file, example_fs indented_file) \<and>
   insert_position (split_nl indented_file) after_b (dflt 1 None) = Inr (2, ''    b'') \<and>
   (\<exists>inserted.
      insertLines example_process ''a.txt'' indented_payload after_b None None None
          (example_fs indented_file) =
        (Inr \<lparr>il_success = True, il_file_path = ''a.txt'', inserted_at_line = 2 + 1,
               lines_inserted = length (split_nl indented_payload)\<rparr>,
         writeFile (example_fs indented_file) ''/root/a.txt''
           (join_nl (splice (split_nl indented_file) 2 0 inserted))) \<and>
      reindented_kept (leading_ws ''    b'') (split_nl indented_payload) inserted)"
proof -
  have a: "\<not> str_includes two_blocks one_block" by code_simp
  have b: "window_at (split_nl two_blocks) (map trim (split_nl (trim one_block))) 0"
    by code_simp
  have c: "\<forall>k<0::nat. \<not> window_at (split_nl two_blocks) (map trim (split_nl (trim one_block))) k"
    by simp
  have h1: "\<not> str_includes two_blocks one_block \<and>
    window_at (split_nl two_blocks) (map trim (split_nl (trim one_block))) 0 \<and>
    (\<forall>k<0::nat. \<not> window_at (split_nl two_blocks) (map trim (split_nl (trim one_block))) k)"
    by (intro conjI) (rule a b c)+
  have r1: "\<exists>newLines.
      performSmartMatch two_blocks one_block two_line_payload =
        Inr (Some (join_nl (take 0 (split_nl two_blocks) @ newLines @
                drop (0 + length (split_nl (trim one_block))) (split_nl two_blocks)))) \<and>
      reindented_stripped (leading_ws (split_nl two_blocks ! 0)) (split_nl two_line_payload)
        newLines"
    by (rule indentation_adaptation [THEN conjunct1, THEN mp, OF h1])
  have rd: "insertLines_read (dflt False None) ''/root/a.txt'' (example_fs indented_file)
     = Inr (indented_file, example_fs indented_file)"
    by (rule insertLines_read_existing [OF example_file])
  have p: "insert_position (split_nl indented_file) after_b (dflt 1 None) = Inr (2, ''    b'')"
    by code_simp
  have ne: "''    b'' \<noteq> []" by simp
  have pr: "dflt True None" by simp
  have h2: "resolveSandboxPath example_process ''a.txt'' = Inr ''/root/a.txt'' \<and>
    insertLines_read (dflt False None) ''/root/a.txt'' (example_fs indented_file)
      = Inr (indented_file, example_fs indented_file) \<and>
    insert_position (split_nl indented_file) after_b (dflt 1 None) = Inr (2, ''    b'') \<and>
    ''    b'' \<noteq> [] \<and> dflt True None"
    by (intro conjI) (rule example_path rd p ne pr)+
  have r2: "\<exists>inserted.
      insertLines example_process ''a.txt'' indented_payload after_b None None None
          (example_fs indented_file) =
        (Inr \<lparr>il_success = True, il_file_path = ''a.txt'', inserted_at_line = 2 + 1,
               lines_inserted = length (split_nl indented_payload)\<rparr>,
         writeFile (example_fs indented_file) ''/root/a.txt''
           (join_nl (splice (split_nl indented_file) 2 0 inserted))) \<and>
      reindented_kept (leading_ws ''    b'') (split_nl indented_payload) inserted"
    by (rule indentation_adaptation [THEN conjunct2, THEN mp, OF h2])
  show ?thesis
    by (intro conjI) (rule a b r1 example_path rd p r2)+
qed


end
